theory Spec2Isabelle
  imports Main "HOL-Library.Product_Lexorder"
begin

section \<open>Python strings\<close>

text \<open>
  A Python \<open>str\<close> is a sequence of Unicode code points, so it is modelled as a list of
  natural numbers; \<open>str\<close> turns an ASCII literal into such a list. The whitespace
  predicate is the complete set that \<open>str.isspace\<close>, \<open>str.strip\<close>, \<open>str.split\<close> and the
  regular-expression class \<open>\s\<close> share. Lower-casing and the word characters of \<open>\b\<close> are
  exact on ASCII; other code points are left unchanged by \<open>py_lower\<close> and count as
  non-word characters (the two glyphs the scripts remove, U+00AE and U+2122, are neither
  cased nor word characters in Python either).
\<close>

type_synonym str = "nat list"

definition str :: "string \<Rightarrow> str" where
  "str s = map of_char s"

definition py_isspace :: "nat \<Rightarrow> bool" where
  "py_isspace c = ((9 \<le> c \<and> c \<le> 13) \<or> (28 \<le> c \<and> c \<le> 32) \<or> c = 133 \<or> c = 160
     \<or> c = 5760 \<or> (8192 \<le> c \<and> c \<le> 8202) \<or> c = 8232 \<or> c = 8233 \<or> c = 8239
     \<or> c = 8287 \<or> c = 12288)"

definition py_isword :: "nat \<Rightarrow> bool" where
  "py_isword c = ((48 \<le> c \<and> c \<le> 57) \<or> (65 \<le> c \<and> c \<le> 90) \<or> c = 95 \<or> (97 \<le> c \<and> c \<le> 122))"

definition py_lower_char :: "nat \<Rightarrow> nat" where
  "py_lower_char c = (if 65 \<le> c \<and> c \<le> 90 then c + 32 else c)"

definition py_lower :: "str \<Rightarrow> str" where
  "py_lower s = map py_lower_char s"

definition py_lstrip :: "str \<Rightarrow> str" where
  "py_lstrip s = dropWhile py_isspace s"

definition py_rstrip :: "str \<Rightarrow> str" where
  "py_rstrip s = rev (dropWhile py_isspace (rev s))"

definition py_strip :: "str \<Rightarrow> str" where
  "py_strip s = py_rstrip (py_lstrip s)"

text \<open>\<open>s.rstrip('/')\<close>: every trailing slash goes, not only one.\<close>

definition rstrip_slash :: "str \<Rightarrow> str" where
  "rstrip_slash s = rev (dropWhile (\<lambda>c. c = 47) (rev s))"

text \<open>\<open>s.split()\<close>: the maximal runs of non-whitespace, \<open>w\<close> being the run read so far.\<close>

fun split_words :: "str \<Rightarrow> str \<Rightarrow> str list" where
  "split_words w [] = (if w = [] then [] else [w])"
| "split_words w (c # cs) =
     (if py_isspace c then (if w = [] then split_words [] cs else w # split_words [] cs)
      else split_words (w @ [c]) cs)"

definition py_split :: "str \<Rightarrow> str list" where
  "py_split s = split_words [] s"

fun py_join :: "str \<Rightarrow> str list \<Rightarrow> str" where
  "py_join sep [] = []"
| "py_join sep [x] = x"
| "py_join sep (x # y # ys) = x @ sep @ py_join sep (y # ys)"

text \<open>\<open>x or ''\<close> for a value that is a string or \<open>None\<close>.\<close>

definition or_empty :: "str option \<Rightarrow> str" where
  "or_empty v = (case v of None \<Rightarrow> [] | Some s \<Rightarrow> s)"

datatype py_error = AttributeError | KeyError | IndexError

section \<open>The identity normalizer (dedup.py, enrich.py)\<close>

subsection \<open>The three substitutions of \<open>normalize_name\<close>\<close>

text \<open>
  \<open>re.sub(r'\([^)]*\)', '', name)\<close>. The scan goes left to right; at an opening
  parenthesis that has a closing one somewhere to its right, the match runs to the first
  closing parenthesis (the class \<open>[^)]\<close> takes every other character, an opening
  parenthesis included) and is deleted; the scan goes on behind it.
\<close>

function strip_parens :: "str \<Rightarrow> str" where
  "strip_parens [] = []"
| "strip_parens (c # cs) =
     (if c = 40 \<and> 41 \<in> set cs then strip_parens (tl (dropWhile (\<lambda>x. x \<noteq> 41) cs))
      else c # strip_parens cs)"
  by pat_completeness auto
termination
proof (relation "measure length")
  fix c :: nat and cs :: str
  have "length (tl (dropWhile (\<lambda>x. x \<noteq> 41) cs)) \<le> length cs"
    using length_dropWhile_le [of "\<lambda>x. x \<noteq> 41" cs] by simp
  then show "(tl (dropWhile (\<lambda>x. x \<noteq> 41) cs), c # cs) \<in> measure length"
    by simp
qed simp_all

text \<open>\<open>re.sub(r'[\<registered>\<trademark>]', '', name)\<close>: U+00AE is 174, U+2122 is 8482.\<close>

definition strip_glyphs :: "str \<Rightarrow> str" where
  "strip_glyphs s = filter (\<lambda>c. c \<noteq> 174 \<and> c \<noteq> 8482) s"

text \<open>
  The suffix pattern is \<open>[,\s]+\b(mba|phd|...)\b[,\s]*\<close> under \<open>re.IGNORECASE\<close>, replaced by
  one blank. \<open>is_sep\<close> is the class \<open>[,\s]\<close>; \<open>word_boundary\<close> is \<open>\b\<close> between the
  character before and the character after a position (\<open>None\<close> at either end of the string).
\<close>

definition is_sep :: "nat \<Rightarrow> bool" where
  "is_sep c = (c = 44 \<or> py_isspace c)"

definition opt_isword :: "nat option \<Rightarrow> bool" where
  "opt_isword c = (case c of None \<Rightarrow> False | Some x \<Rightarrow> py_isword x)"

definition word_boundary :: "nat option \<Rightarrow> nat option \<Rightarrow> bool" where
  "word_boundary before after = (opt_isword before \<noteq> opt_isword after)"

definition head :: "str \<Rightarrow> nat option" where
  "head s = (case s of [] \<Rightarrow> None | c # _ \<Rightarrow> Some c)"

definition last_char :: "str \<Rightarrow> nat option" where
  "last_char s = (case rev s of [] \<Rightarrow> None | c # _ \<Rightarrow> Some c)"

text \<open>
  One alternative of the group matches at the start of \<open>s\<close> when its letters are there,
  case ignored, and a word boundary follows them.
\<close>

definition match_alt :: "str \<Rightarrow> str \<Rightarrow> bool" where
  "match_alt s lit =
     (length lit \<le> length s \<and> py_lower (take (length lit) s) = py_lower lit
      \<and> word_boundary (last_char (take (length lit) s)) (head (drop (length lit) s)))"

text \<open>
  \<open>\b(alt1|alt2|...)\b\<close> at the start of \<open>s\<close>, where \<open>before\<close> is the character in front:
  the alternatives are tried in the order of the pattern, and the first that matches is
  returned.
\<close>

definition match_token :: "str list \<Rightarrow> nat option \<Rightarrow> str \<Rightarrow> str option" where
  "match_token alts before s =
     (if word_boundary before (head s) then find (match_alt s) alts else None)"

text \<open>
  The substitution itself. A match can only begin at the first character of a run of
  separators: \<open>[,\s]+\<close> is greedy and takes the whole run, and giving a separator back
  leaves a separator on both sides of \<open>\b\<close>, which is no word boundary. So at a run
  the token is looked for behind the run; when it is there, the run, the token and the
  separators behind it (\<open>[,\s]*\<close>, greedy) become one blank and the scan goes on behind
  them; when it is not, the run stays as it is.
\<close>

function sub_suffixes :: "str list \<Rightarrow> str \<Rightarrow> str" where
  "sub_suffixes alts [] = []"
| "sub_suffixes alts (c # cs) =
     (if is_sep c then
        (case match_token alts (last_char (c # takeWhile is_sep cs)) (dropWhile is_sep cs) of
           Some lit \<Rightarrow>
             32 # sub_suffixes alts (dropWhile is_sep (drop (length lit) (dropWhile is_sep cs)))
         | None \<Rightarrow> (c # takeWhile is_sep cs) @ sub_suffixes alts (dropWhile is_sep cs))
      else c # sub_suffixes alts cs)"
  by pat_completeness auto
termination
proof (relation "measure (\<lambda>(alts, s). length s)")
  fix alts :: "str list" and c :: nat and cs :: str and lit :: str
  have "length (dropWhile is_sep (drop (length lit) (dropWhile is_sep cs)))
          \<le> length (drop (length lit) (dropWhile is_sep cs))"
    by (rule length_dropWhile_le)
  also have "\<dots> \<le> length (dropWhile is_sep cs)" by simp
  also have "\<dots> \<le> length cs" by (rule length_dropWhile_le)
  finally show "((alts, dropWhile is_sep (drop (length lit) (dropWhile is_sep cs))), alts, c # cs)
          \<in> measure (\<lambda>(alts, s). length s)"
    by simp
  show "((alts, dropWhile is_sep cs), alts, c # cs) \<in> measure (\<lambda>(alts, s). length s)"
    using length_dropWhile_le [of is_sep cs] by simp
qed simp_all

subsection \<open>\<open>normalize_name\<close> and \<open>normalize_url\<close>\<close>

definition DEDUP_SUFFIXES :: "str list" where
  "DEDUP_SUFFIXES = map str
     [''mba'', ''phd'', ''md'', ''rn'', ''bsn'', ''cptc'', ''lssbb'', ''mha'', ''fache'', ''pmp'',
      ''cmrp'', ''ctbs'', ''dlm'', ''ascp'', ''cm'', ''ms'', ''cls'', ''mt'', ''mls'', ''sbb'',
      ''rrt'', ''lssgb'', ''bs'', ''jr'', ''sr'', ''iii'', ''ii'', ''do'', ''ma'', ''mpa'',
      ''msscm'', ''cscp'', ''cpm'', ''csp'', ''cpim'', ''lcsw'', ''cltd'', ''ciiscm'', ''msyl'',
      ''gms-t'', ''crp'', ''cftco'']"

definition ENRICH_SUFFIXES :: "str list" where
  "ENRICH_SUFFIXES = map str
     [''mba'', ''phd'', ''md'', ''rn'', ''bsn'', ''cptc'', ''lssbb'', ''mha'', ''fache'', ''pmp'',
      ''cmrp'', ''ctbs'', ''dlm'', ''ascp'', ''cm'', ''ms'', ''cls'', ''mt'', ''mls'', ''sbb'',
      ''rrt'', ''lssgb'', ''bs'', ''jr'', ''sr'', ''iii'', ''ii'', ''do'', ''ma'', ''mpa'',
      ''msscm'', ''cscp'', ''cpm'', ''csp'', ''cpim'']"

text \<open>The body the two scripts share; they differ in the list of suffixes only.\<close>

definition normalize_with :: "str list \<Rightarrow> str \<Rightarrow> str" where
  "normalize_with alts name =
     (let name = py_strip (py_lower name);
          name = strip_parens name;
          name = strip_glyphs name;
          name = sub_suffixes alts name
      in py_strip (py_join [32] (py_split name)))"

text \<open>\<open>normalize_name\<close> of dedup.py, on a string.\<close>

definition normalize_name :: "str \<Rightarrow> str" where
  "normalize_name name = normalize_with DEDUP_SUFFIXES name"

text \<open>\<open>normalize_name\<close> of enrich.py, on a string.\<close>

definition enrich_normalize_name :: "str \<Rightarrow> str" where
  "enrich_normalize_name name = normalize_with ENRICH_SUFFIXES name"

text \<open>
  The call of \<open>normalize_name\<close> with an argument that may be \<open>None\<close>: the first thing the
  body does is \<open>name.lower()\<close>, which \<open>None\<close> does not have.
\<close>

definition normalize_name_dyn :: "str option \<Rightarrow> py_error + str" where
  "normalize_name_dyn name =
     (case name of None \<Rightarrow> Inl AttributeError | Some s \<Rightarrow> Inr (normalize_name s))"

text \<open>\<open>normalize_url\<close> of dedup.py; \<open>url.split('?')[0]\<close> is the part before the first \<open>?\<close>.\<close>

definition normalize_url :: "str option \<Rightarrow> str" where
  "normalize_url url =
     (let url = rstrip_slash (py_lower (py_strip (or_empty url)));
          url = rstrip_slash (takeWhile (\<lambda>c. c \<noteq> 63) url)
      in url)"

section \<open>Finding duplicates (dedup.py)\<close>

text \<open>
  A contact as the CRM returns it: its id (a decimal string in the API, kept here as the
  number \<open>int(c['id'])\<close> reads) and its properties, a dictionary from property names to
  strings in which a property can be missing or \<open>null\<close> (both are \<open>None\<close> here).
\<close>

record contact =
  cid :: int
  properties :: "string \<Rightarrow> str option"

definition FIELDS :: "string list" where
  "FIELDS =
     [''email'', ''jobtitle'', ''company'', ''industry'', ''city'', ''state'', ''country'',
      ''hs_linkedin_url'', ''phone'', ''website'',
      ''linkedin_headline'', ''school_name'', ''school_degree'',
      ''previous_company_name'', ''previous_company_position'', ''job_location'',
      ''linkedin_company_slug'']"

text \<open>
  Python dictionaries keep insertion order, and \<open>find_duplicates\<close> iterates over them,
  so they are association lists here. \<open>setdefault_append k v d\<close> is
  \<open>d.setdefault(k, []).append(v)\<close>, and \<open>dict_set k v d\<close> is \<open>d[k] = v\<close>.
\<close>

fun setdefault_append :: "'k \<Rightarrow> 'v \<Rightarrow> ('k \<times> 'v list) list \<Rightarrow> ('k \<times> 'v list) list" where
  "setdefault_append k v [] = [(k, [v])]"
| "setdefault_append k v ((k', vs) # d) =
     (if k = k' then (k', vs @ [v]) # d else (k', vs) # setdefault_append k v d)"

fun dict_set :: "'k \<Rightarrow> 'v \<Rightarrow> ('k \<times> 'v) list \<Rightarrow> ('k \<times> 'v) list" where
  "dict_set k v [] = [(k, v)]"
| "dict_set k v ((k', v') # d) =
     (if k = k' then (k', v) # d else (k', v') # dict_set k v d)"

text \<open>The body of the first loop of \<open>find_duplicates\<close>, and the key it computes.\<close>

definition name_key :: "contact \<Rightarrow> str" where
  "name_key c =
     (let p = properties c;
          fn = py_strip (or_empty (p ''firstname''));
          ln = py_strip (or_empty (p ''lastname''));
          name = py_strip (fn @ [32] @ ln)
      in normalize_name name)"

definition by_name_step :: "(str \<times> contact list) list \<Rightarrow> contact \<Rightarrow> (str \<times> contact list) list" where
  "by_name_step by_name c =
     (let norm = name_key c
      in if norm \<noteq> [] \<and> length norm > 2 then setdefault_append norm c by_name else by_name)"

text \<open>The body of the second loop.\<close>

definition url_key :: "contact \<Rightarrow> str" where
  "url_key c = normalize_url (properties c ''hs_linkedin_url'')"

definition by_url_step :: "(str \<times> contact list) list \<Rightarrow> contact \<Rightarrow> (str \<times> contact list) list" where
  "by_url_step by_url c =
     (let url = url_key c
      in if url \<noteq> [] then setdefault_append url c by_url else by_url)"

text \<open>The two variables the nested functions \<open>get_group\<close> and \<open>merge_groups\<close> share.\<close>

record groups_state =
  contact_to_group :: "(int \<times> nat) list"
  group_counter :: nat

definition get_group :: "int \<Rightarrow> groups_state \<Rightarrow> nat \<times> groups_state" where
  "get_group c st =
     (case map_of (contact_to_group st) c of
        Some g \<Rightarrow> (g, st)
      | None \<Rightarrow>
          (group_counter st,
           st\<lparr>contact_to_group := contact_to_group st @ [(c, group_counter st)],
              group_counter := group_counter st + 1\<rparr>))"

text \<open>\<open>[get_group(cid) for cid in cids]\<close>, left to right.\<close>

fun get_groups :: "int list \<Rightarrow> groups_state \<Rightarrow> nat list \<times> groups_state" where
  "get_groups [] st = ([], st)"
| "get_groups (c # cs) st =
     (let (g, st1) = get_group c st; (gs, st2) = get_groups cs st1 in (g # gs, st2))"

text \<open>
  \<open>merge_groups\<close>: every contact whose group is one of \<open>groups\<close> moves to the least of
  them; the loop over the keys of the dictionary rewrites one entry at a time, which is a
  map over the entries.
\<close>

definition merge_groups :: "int list \<Rightarrow> groups_state \<Rightarrow> groups_state" where
  "merge_groups cids st =
     (if length cids \<le> 1 then st
      else
        let (groups, st1) = get_groups cids st;
            target = Min (set groups);
            relabelled = map (\<lambda>(c, g). if g \<in> set groups then (c, target) else (c, g))
                           (contact_to_group st1);
            assigned = fold (\<lambda>c d. dict_set c target d) cids relabelled
        in st1\<lparr>contact_to_group := assigned\<rparr>)"

text \<open>\<open>for key, group in d.items(): if len(group) > 1: merge_groups([c['id'] for c in group])\<close>.\<close>

definition merge_step :: "groups_state \<Rightarrow> 'k \<times> contact list \<Rightarrow> groups_state" where
  "merge_step st item =
     (case item of (key, grp) \<Rightarrow>
        if length grp > 1 then merge_groups (map cid grp) st else st)"

text \<open>\<open>contacts_by_id = {c['id']: c for c in contacts}\<close>: a later contact replaces an earlier one.\<close>

definition contacts_by_id :: "contact list \<Rightarrow> int \<Rightarrow> contact option" where
  "contacts_by_id contacts = map_of (rev (map (\<lambda>c. (cid c, c)) contacts))"

text \<open>The loop that builds \<open>final_groups\<close>; \<open>contacts_by_id[cid]\<close> raises on a missing key.\<close>

fun build_final ::
  "(int \<Rightarrow> contact option) \<Rightarrow> (int \<times> nat) list \<Rightarrow> (nat \<times> contact list) list
     \<Rightarrow> py_error + (nat \<times> contact list) list" where
  "build_final by_id [] final_groups = Inr final_groups"
| "build_final by_id ((c, gid) # rest) final_groups =
     (case by_id c of
        None \<Rightarrow> Inl KeyError
      | Some x \<Rightarrow> build_final by_id rest (setdefault_append gid x final_groups))"

definition find_duplicates :: "contact list \<Rightarrow> py_error + (nat \<times> contact list) list" where
  "find_duplicates contacts =
     (let by_name = foldl by_name_step [] contacts;
          by_url = foldl by_url_step [] contacts;
          st = \<lparr>contact_to_group = [], group_counter = 0\<rparr>;
          st = foldl merge_step st by_name;
          st = foldl merge_step st by_url
      in case build_final (contacts_by_id contacts) (contact_to_group st) [] of
           Inl e \<Rightarrow> Inl e
         | Inr final_groups \<Rightarrow> Inr (filter (\<lambda>(gid, grp). length grp > 1) final_groups))"

section \<open>Merging and deleting duplicates (dedup.py)\<close>

definition score :: "contact \<Rightarrow> nat \<times> nat \<times> nat" where
  "score c =
     (let p = properties c;
          filled = length (filter (\<lambda>f. py_strip (or_empty (p f)) \<noteq> []) FIELDS);
          has_email = (if py_strip (or_empty (p ''email'')) \<noteq> [] then 1 else 0);
          has_linkedin = (if py_strip (or_empty (p ''hs_linkedin_url'')) \<noteq> [] then 1 else 0)
      in (has_email, has_linkedin, filled))"

text \<open>
  \<open>group.sort(key=lambda c: (score(c), -int(c['id'])), reverse=True)\<close>. Python's sort is
  stable, and with \<open>reverse=True\<close> it reverses the list, sorts it in ascending order and
  reverses the result; tuples compare lexicographically.
\<close>

definition sort_group :: "contact list \<Rightarrow> contact list" where
  "sort_group grp = rev (sort_key (\<lambda>c. (score c, - cid c)) (rev grp))"

text \<open>
  The body of the inner loop that fills \<open>merge_updates\<close>, a dictionary from field names
  to strings. Where the condition holds the duplicate has the field, so \<open>dp[f]\<close> is the
  string \<open>dp.get(f)\<close> returned.
\<close>

definition merge_field ::
  "(string \<Rightarrow> str option) \<Rightarrow> (string \<Rightarrow> str option) \<Rightarrow> (string \<times> str) list \<Rightarrow> string
     \<Rightarrow> (string \<times> str) list" where
  "merge_field keeper_props dp merge_updates f =
     (if py_strip (or_empty (keeper_props f)) = [] \<and> py_strip (or_empty (dp f)) \<noteq> []
         \<and> f \<notin> fst ` set merge_updates
      then merge_updates @ [(f, py_strip (or_empty (dp f)))]
      else merge_updates)"

definition merge_updates :: "contact \<Rightarrow> contact list \<Rightarrow> (string \<times> str) list" where
  "merge_updates keeper to_delete =
     foldl (\<lambda>updates dup. foldl (merge_field (properties keeper) (properties dup)) updates FIELDS)
       [] to_delete"

text \<open>
  The requests \<open>process_duplicates\<close> sends. \<open>hs_request\<close> returns the decoded body, or
  \<open>None\<close> after an HTTP error; the model keeps whether the result was truthy. The CRM is
  a function from the requests answered so far and the new request to that outcome. Every
  request is logged with the outcome and with the key of the group it was sent for.
\<close>

datatype request = PATCH int "(string \<times> str) list" | DELETE int

type_synonym event = "nat \<times> request \<times> bool"


record run =
  trace :: "event list"
  total_merged :: nat
  total_deleted :: nat






section \<open>The industry resolver (enrich.py)\<close>

definition HUBSPOT_INDUSTRY_ENUMS :: "str list" where
  "HUBSPOT_INDUSTRY_ENUMS = map str
     [''ACCOUNTING'', ''AIRLINES_AVIATION'', ''ALTERNATIVE_DISPUTE_RESOLUTION'',
      ''ALTERNATIVE_MEDICINE'', ''ANIMATION'', ''APPAREL_FASHION'', ''ARCHITECTURE_PLANNING'',
      ''ARTS_AND_CRAFTS'', ''AUTOMOTIVE'', ''AVIATION_AEROSPACE'', ''BANKING'',
      ''BIOTECHNOLOGY'', ''BROADCAST_MEDIA'', ''BUILDING_MATERIALS'',
      ''BUSINESS_SUPPLIES_AND_EQUIPMENT'', ''CAPITAL_MARKETS'', ''CHEMICALS'',
      ''CIVIC_SOCIAL_ORGANIZATION'', ''CIVIL_ENGINEERING'', ''COMMERCIAL_REAL_ESTATE'',
      ''COMPUTER_NETWORK_SECURITY'', ''COMPUTER_GAMES'', ''COMPUTER_HARDWARE'',
      ''COMPUTER_NETWORKING'', ''COMPUTER_SOFTWARE'', ''INTERNET'', ''CONSTRUCTION'',
      ''CONSUMER_ELECTRONICS'', ''CONSUMER_GOODS'', ''CONSUMER_SERVICES'', ''COSMETICS'',
      ''DAIRY'', ''DEFENSE_SPACE'', ''DESIGN'', ''EDUCATION_MANAGEMENT'', ''E_LEARNING'',
      ''ELECTRICAL_ELECTRONIC_MANUFACTURING'', ''ENTERTAINMENT'', ''ENVIRONMENTAL_SERVICES'',
      ''EVENTS_SERVICES'', ''EXECUTIVE_OFFICE'', ''FACILITIES_SERVICES'', ''FARMING'',
      ''FINANCIAL_SERVICES'', ''FINE_ART'', ''FISHERY'', ''FOOD_BEVERAGES'',
      ''FOOD_PRODUCTION'', ''FUND_RAISING'', ''FURNITURE'', ''GAMBLING_CASINOS'',
      ''GLASS_CERAMICS_CONCRETE'', ''GOVERNMENT_ADMINISTRATION'', ''GOVERNMENT_RELATIONS'',
      ''GRAPHIC_DESIGN'', ''HEALTH_WELLNESS_AND_FITNESS'', ''HIGHER_EDUCATION'',
      ''HOSPITAL_HEALTH_CARE'', ''HOSPITALITY'', ''HUMAN_RESOURCES'', ''IMPORT_AND_EXPORT'',
      ''INDIVIDUAL_FAMILY_SERVICES'', ''INDUSTRIAL_AUTOMATION'', ''INFORMATION_SERVICES'',
      ''INFORMATION_TECHNOLOGY_AND_SERVICES'', ''INSURANCE'', ''INTERNATIONAL_AFFAIRS'',
      ''INTERNATIONAL_TRADE_AND_DEVELOPMENT'', ''INVESTMENT_BANKING'',
      ''INVESTMENT_MANAGEMENT'', ''JUDICIARY'', ''LAW_ENFORCEMENT'', ''LAW_PRACTICE'',
      ''LEGAL_SERVICES'', ''LEGISLATIVE_OFFICE'', ''LEISURE_TRAVEL_TOURISM'', ''LIBRARIES'',
      ''LOGISTICS_AND_SUPPLY_CHAIN'', ''LUXURY_GOODS_JEWELRY'', ''MACHINERY'',
      ''MANAGEMENT_CONSULTING'', ''MARITIME'', ''MARKET_RESEARCH'',
      ''MARKETING_AND_ADVERTISING'', ''MECHANICAL_OR_INDUSTRIAL_ENGINEERING'',
      ''MEDIA_PRODUCTION'', ''MEDICAL_DEVICES'', ''MEDICAL_PRACTICE'', ''MENTAL_HEALTH_CARE'',
      ''MILITARY'', ''MINING_METALS'', ''MOTION_PICTURES_AND_FILM'',
      ''MUSEUMS_AND_INSTITUTIONS'', ''MUSIC'', ''NANOTECHNOLOGY'', ''NEWSPAPERS'',
      ''NON_PROFIT_ORGANIZATION_MANAGEMENT'', ''OIL_ENERGY'', ''ONLINE_MEDIA'',
      ''OUTSOURCING_OFFSHORING'', ''PACKAGE_FREIGHT_DELIVERY'', ''PACKAGING_AND_CONTAINERS'',
      ''PAPER_FOREST_PRODUCTS'', ''PERFORMING_ARTS'', ''PHARMACEUTICALS'', ''PHILANTHROPY'',
      ''PHOTOGRAPHY'', ''PLASTICS'', ''POLITICAL_ORGANIZATION'',
      ''PRIMARY_SECONDARY_EDUCATION'', ''PRINTING'', ''PROFESSIONAL_TRAINING_COACHING'',
      ''PROGRAM_DEVELOPMENT'', ''PUBLIC_POLICY'', ''PUBLIC_RELATIONS_AND_COMMUNICATIONS'',
      ''PUBLIC_SAFETY'', ''PUBLISHING'', ''RAILROAD_MANUFACTURE'', ''RANCHING'',
      ''REAL_ESTATE'', ''RECREATIONAL_FACILITIES_AND_SERVICES'', ''RELIGIOUS_INSTITUTIONS'',
      ''RENEWABLES_ENVIRONMENT'', ''RESEARCH'', ''RESTAURANTS'', ''RETAIL'',
      ''SECURITY_AND_INVESTIGATIONS'', ''SEMICONDUCTORS'', ''SHIPBUILDING'',
      ''SPORTING_GOODS'', ''SPORTS'', ''STAFFING_AND_RECRUITING'', ''SUPERMARKETS'',
      ''TELECOMMUNICATIONS'', ''TEXTILES'', ''THINK_TANKS'', ''TOBACCO'',
      ''TRANSLATION_AND_LOCALIZATION'', ''TRANSPORTATION_TRUCKING_RAILROAD'', ''UTILITIES'',
      ''VENTURE_CAPITAL_PRIVATE_EQUITY'', ''VETERINARY'', ''WAREHOUSING'', ''WHOLESALE'',
      ''WINE_AND_SPIRITS'', ''WIRELESS'', ''WRITING_AND_EDITING'', ''MOBILE_GAMES'']"

definition HUBSPOT_INDUSTRY_SET :: "str set" where
  "HUBSPOT_INDUSTRY_SET = set HUBSPOT_INDUSTRY_ENUMS"

text \<open>
  \<open>map_industry(raw_industry, _cache)\<close>: the argument is a string or \<open>None\<close>, the cache
  a dictionary from strings to strings.
\<close>

definition map_industry :: "str option \<Rightarrow> (str \<Rightarrow> str option) \<Rightarrow> str" where
  "map_industry raw_industry cache =
     (case raw_industry of
        None \<Rightarrow> []
      | Some raw \<Rightarrow>
          if raw = [] then []
          else if raw \<in> HUBSPOT_INDUSTRY_SET then raw
          else (case cache raw of Some v \<Rightarrow> v | None \<Rightarrow> []))"








section \<open>Properties of the identity normalizer\<close>

text \<open>The unfolding rules with which the functions above are run on concrete strings.\<close>

lemmas py_eval = str_def py_isspace_def py_isword_def py_lower_char_def py_lower_def py_lstrip_def
  py_rstrip_def py_strip_def rstrip_slash_def py_split_def or_empty_def strip_glyphs_def is_sep_def
  opt_isword_def word_boundary_def head_def last_char_def match_alt_def match_token_def
  DEDUP_SUFFIXES_def ENRICH_SUFFIXES_def normalize_with_def normalize_name_def
  enrich_normalize_name_def normalize_name_dyn_def normalize_url_def Let_def

text \<open>
  C6. Applying \<open>normalize_name\<close> to its own output should change nothing. It does: the
  match for one suffix takes the separators behind it, so a suffix that follows directly
  has no separator left in front and stays; the second application then removes it. The
  same holds for the function of enrich.py.
\<close>

theorem normalize_name_reapplied:
  "normalize_name (str ''John Smith MBA PhD'') = str ''john smith phd''
   \<and> normalize_name (normalize_name (str ''John Smith MBA PhD'')) = str ''john smith''
   \<and> enrich_normalize_name (str ''John Smith MBA PhD'') = str ''john smith phd''
   \<and> enrich_normalize_name (enrich_normalize_name (str ''John Smith MBA PhD'')) = str ''john smith''"
  by (simp add: py_eval)

subsection \<open>\<open>normalize_url\<close>\<close>

lemma rstrip_slash_decomp: "\<exists>sl. s = rstrip_slash s @ sl \<and> set sl \<subseteq> {47}"
proof -
  let ?p = "\<lambda>c::nat. c = 47"
  have "rev (dropWhile ?p (rev s)) @ rev (takeWhile ?p (rev s))
          = rev (takeWhile ?p (rev s) @ dropWhile ?p (rev s))"
    by (simp only: rev_append)
  also have "\<dots> = s"
    by (simp only: takeWhile_dropWhile_id rev_rev_ident)
  finally have "s = rstrip_slash s @ rev (takeWhile ?p (rev s))"
    by (simp only: rstrip_slash_def)
  moreover have "set (rev (takeWhile ?p (rev s))) \<subseteq> {47}"
    by (auto dest: set_takeWhileD)
  ultimately show ?thesis by blast
qed

lemma last_char_rev: "last_char (rev s) = head s"
  by (simp add: last_char_def head_def)

lemma last_char_rstrip_slash: "last_char (rstrip_slash s) \<noteq> Some 47"
proof (cases "dropWhile (\<lambda>c. c = 47) (rev s)")
  case Nil
  then show ?thesis
    unfolding rstrip_slash_def last_char_rev by (simp only: head_def list.case option.distinct not_False_eq_True)
next
  case (Cons a as)
  then have "dropWhile (\<lambda>c. c = 47) (rev s) \<noteq> []" by simp
  then have "hd (dropWhile (\<lambda>c. c = 47) (rev s)) \<noteq> 47" by (rule hd_dropWhile)
  with Cons have "a \<noteq> 47" by simp
  with Cons show ?thesis
    unfolding rstrip_slash_def last_char_rev by (simp only: head_def list.case option.inject not_False_eq_True)
qed

lemma set_rstrip_slash: "set (rstrip_slash s) \<subseteq> set s"
  by (auto simp: rstrip_slash_def dest: set_dropWhileD)

lemma dropWhile_query_head:
  "dropWhile (\<lambda>c. c \<noteq> 63) s = [] \<or> head (dropWhile (\<lambda>c. c \<noteq> 63) s @ t) = Some 63"
proof (cases "dropWhile (\<lambda>c. c \<noteq> 63) s")
  case Nil
  then show ?thesis by simp
next
  case (Cons a as)
  then have "dropWhile (\<lambda>c. c \<noteq> 63) s \<noteq> []" by simp
  then have "\<not> (hd (dropWhile (\<lambda>c. c \<noteq> 63) s) \<noteq> 63)" by (rule hd_dropWhile)
  with Cons show ?thesis by (simp add: head_def)
qed

text \<open>
  C7, as the specification has it: the scheme is stripped, so that one address gives one
  key under http and under https. The function keeps the scheme, and the two keys differ.
\<close>

theorem normalize_url_scheme_counterexample:
  "normalize_url (Some (str ''http://x.com/in/a'')) = str ''http://x.com/in/a''
   \<and> normalize_url (Some (str ''https://x.com/in/a'')) = str ''https://x.com/in/a''
   \<and> normalize_url (Some (str ''http://x.com/in/a'')) \<noteq> normalize_url (Some (str ''https://x.com/in/a''))"
  by (simp add: py_eval)

text \<open>
  C7, amended: the key is the input without surrounding whitespace, in lower case, cut
  before the first question mark and without the slashes in front of the cut; the scheme
  is kept. That is, the lower-cased input is the key, then slashes only, then nothing or
  a rest that starts with the question mark; the key has no question mark and does not
  end in a slash.
\<close>

theorem normalize_url_spec:
  "\<exists>slashes rest.
     py_lower (py_strip (or_empty url)) = normalize_url url @ slashes @ rest
     \<and> set slashes \<subseteq> {47}
     \<and> (rest = [] \<or> head rest = Some 63)
     \<and> 63 \<notin> set (normalize_url url)
     \<and> last_char (normalize_url url) \<noteq> Some 47"
proof -
  define s where "s = py_lower (py_strip (or_empty url))"
  define s1 where "s1 = rstrip_slash s"
  define t where "t = takeWhile (\<lambda>c. c \<noteq> 63) s1"
  define q where "q = dropWhile (\<lambda>c. c \<noteq> 63) s1"
  have r: "normalize_url url = rstrip_slash t"
    by (simp add: normalize_url_def s_def s1_def t_def)
  obtain sl1 where sl1: "s = s1 @ sl1" "set sl1 \<subseteq> {47}"
    unfolding s1_def using rstrip_slash_decomp by blast
  obtain sl2 where sl2: "t = rstrip_slash t @ sl2" "set sl2 \<subseteq> {47}"
    using rstrip_slash_decomp by blast
  have tq: "s1 = t @ q" by (simp add: t_def q_def)
  have noq: "63 \<notin> set (rstrip_slash t)"
    using set_rstrip_slash [of t] by (auto simp: t_def dest: set_takeWhileD)
  have lst: "last_char (rstrip_slash t) \<noteq> Some 47" by (rule last_char_rstrip_slash)
  show ?thesis
  proof (cases "q = []")
    case True
    then have "s = rstrip_slash t @ (sl2 @ sl1) @ []"
      using sl1(1) sl2(1) tq by simp
    moreover have "set (sl2 @ sl1) \<subseteq> {47}" using sl1(2) sl2(2) by simp
    ultimately show ?thesis
      unfolding r s_def [symmetric] using noq lst by blast
  next
    case False
    then have h: "head (q @ sl1) = Some 63"
      using dropWhile_query_head [of s1 sl1] unfolding q_def by blast
    have "s = rstrip_slash t @ sl2 @ (q @ sl1)"
      using sl1(1) sl2(1) tq by (metis append.assoc)
    then show ?thesis
      unfolding r s_def [symmetric] using noq lst h sl2(2) by blast
  qed
qed

text \<open>C7, amended, at \<open>HTTPS://X.com/in/A/?q=1\<close> followed by a blank.\<close>

theorem normalize_url_spec_witness:
  "\<exists>slashes rest.
     str ''https://x.com/in/a/?q=1'' = str ''https://x.com/in/a'' @ slashes @ rest
     \<and> set slashes \<subseteq> {47} \<and> (rest = [] \<or> head rest = Some 63)
     \<and> 63 \<notin> set (str ''https://x.com/in/a'')
     \<and> last_char (str ''https://x.com/in/a'') \<noteq> Some 47"
proof -
  have a: "normalize_url (Some (str ''HTTPS://X.com/in/A/?q=1 '')) = str ''https://x.com/in/a''"
    by (simp add: py_eval)
  have b: "py_lower (py_strip (or_empty (Some (str ''HTTPS://X.com/in/A/?q=1 ''))))
           = str ''https://x.com/in/a/?q=1''"
    by (simp add: py_eval)
  show ?thesis
    using normalize_url_spec [of "Some (str ''HTTPS://X.com/in/A/?q=1 '')"]
    unfolding a b .
qed

subsection \<open>The edge inputs\<close>

text \<open>
  C8, as the specification has it: both functions return the empty key for \<open>None\<close>.
  \<open>normalize_name\<close> raises for \<open>None\<close>.
\<close>

theorem normalize_name_none_counterexample:
  "normalize_name_dyn None = Inl AttributeError"
  by (simp add: normalize_name_dyn_def)

text \<open>
  C8, amended: \<open>normalize_name\<close> returns the empty key for the empty string, and
  \<open>normalize_url\<close> returns it for the empty string and for \<open>None\<close>.
\<close>

theorem normalizers_on_empty:
  "normalize_name_dyn (Some []) = Inr []
   \<and> normalize_url (Some []) = []
   \<and> normalize_url None = []"
  by (simp add: py_eval)

section \<open>Properties of the industry resolver\<close>

text \<open>Members and non-members of the enumeration that the examples below use.\<close>

lemma empty_not_enum: "[] \<notin> HUBSPOT_INDUSTRY_SET"
  by (simp add: HUBSPOT_INDUSTRY_SET_def HUBSPOT_INDUSTRY_ENUMS_def str_def)

lemma retail_enum: "str ''RETAIL'' \<in> HUBSPOT_INDUSTRY_SET"
  by (simp add: HUBSPOT_INDUSTRY_SET_def HUBSPOT_INDUSTRY_ENUMS_def str_def)


lemma retail_stores_not_enum: "str ''Retail stores'' \<notin> HUBSPOT_INDUSTRY_SET"
  by (simp add: HUBSPOT_INDUSTRY_SET_def HUBSPOT_INDUSTRY_ENUMS_def str_def)

lemma widgets_not_enum: "str ''Widgets'' \<notin> HUBSPOT_INDUSTRY_SET"
  by (simp add: HUBSPOT_INDUSTRY_SET_def HUBSPOT_INDUSTRY_ENUMS_def str_def)



text \<open>
  C9, as the specification has it: whenever the argument is a key of the cache, the cached
  mapping is returned. The function returns the empty string for the empty string before
  it looks at the cache, also when the cache has an entry under that key.
\<close>

theorem map_industry_empty_key_counterexample:
  "([] :: str) \<in> dom [[] \<mapsto> str ''RETAIL'']
   \<and> map_industry (Some []) [[] \<mapsto> str ''RETAIL''] = []
   \<and> map_industry (Some []) [[] \<mapsto> str ''RETAIL'']
       \<noteq> the ([([] :: str) \<mapsto> str ''RETAIL''] [])"
  by (simp add: map_industry_def str_def)

text \<open>
  C9, amended: a member \<open>e\<close> of the enumeration is returned unchanged, whatever the cache
  holds; a non-empty \<open>k\<close> outside the enumeration that is a key of the cache gives the
  cached value; a value \<open>u\<close> that is neither gives the empty string; the empty string and
  \<open>None\<close> give the empty string. No case raises.
\<close>

theorem map_industry_cases:
  "(e \<in> HUBSPOT_INDUSTRY_SET \<longrightarrow> map_industry (Some e) cache = e)
   \<and> (k \<noteq> [] \<and> k \<notin> HUBSPOT_INDUSTRY_SET \<and> cache k = Some v \<longrightarrow> map_industry (Some k) cache = v)
   \<and> (u \<notin> HUBSPOT_INDUSTRY_SET \<and> cache u = None \<longrightarrow> map_industry (Some u) cache = [])
   \<and> map_industry (Some []) cache = []
   \<and> map_industry None cache = []"
  using empty_not_enum by (auto simp: map_industry_def)

text \<open>
  C9, amended, on the cache that maps ``Retail stores'' to \<open>RETAIL\<close>: an enum member, a
  cached value and an unresolved one.
\<close>

theorem map_industry_cases_witness:
  "map_industry (Some (str ''RETAIL'')) [str ''Retail stores'' \<mapsto> str ''RETAIL''] = str ''RETAIL''
   \<and> map_industry (Some (str ''Retail stores'')) [str ''Retail stores'' \<mapsto> str ''RETAIL''] = str ''RETAIL''
   \<and> map_industry (Some (str ''Widgets'')) [str ''Retail stores'' \<mapsto> str ''RETAIL''] = []"
proof -
  have ne: "str ''Retail stores'' \<noteq> []" by (simp add: str_def)
  have hit: "[str ''Retail stores'' \<mapsto> str ''RETAIL''] (str ''Retail stores'') = Some (str ''RETAIL'')"
    by simp
  have miss: "[str ''Retail stores'' \<mapsto> str ''RETAIL''] (str ''Widgets'') = None"
    by (simp add: str_def)
  show ?thesis
    using map_industry_cases [of "str ''RETAIL''" "[str ''Retail stores'' \<mapsto> str ''RETAIL'']"
        "str ''Retail stores''" "str ''RETAIL''" "str ''Widgets''"]
      retail_enum retail_stores_not_enum widgets_not_enum ne hit miss
    by blast
qed

subsection \<open>Validation of the classifier's answer\<close>












section \<open>Properties of the keeper choice and of the merge\<close>

subsection \<open>The keeper\<close>

lemma sorted_snoc_le:
  fixes x :: "'a::linorder"
  shows "sorted (xs @ [x]) \<Longrightarrow> y \<in> set xs \<Longrightarrow> y \<le> x"
  by (auto simp: sorted_append)

lemma sort_group_head:
  assumes "sort_group grp = keeper # to_delete"
  shows "keeper \<in> set grp"
    and "c \<in> set grp \<Longrightarrow> (score c, - cid c) \<le> (score keeper, - cid keeper)"
proof -
  let ?key = "\<lambda>c. (score c, - cid c)"
  from assms have "rev (rev (sort_key ?key (rev grp))) = rev (keeper # to_delete)"
    by (simp only: sort_group_def)
  then have l: "sort_key ?key (rev grp) = rev to_delete @ [keeper]" by simp
  have "set (sort_key ?key (rev grp)) = set grp" by simp
  with l have s: "set grp = insert keeper (set to_delete)" by auto
  then show "keeper \<in> set grp" by simp
  have "sorted (map ?key (sort_key ?key (rev grp)))" by (rule sorted_sort_key)
  with l have srt: "sorted (map ?key (rev to_delete) @ [?key keeper])" by simp
  assume "c \<in> set grp"
  with s have "c = keeper \<or> c \<in> set to_delete" by auto
  then show "?key c \<le> ?key keeper"
  proof
    assume "c = keeper" then show ?thesis by simp
  next
    assume "c \<in> set to_delete"
    then have "?key c \<in> set (map ?key (rev to_delete))" by simp
    with srt show ?thesis by (rule sorted_snoc_le)
  qed
qed

lemmas contact_eval = score_def FIELDS_def sort_group_def less_eq_prod_def less_prod_def

text \<open>
  C3, as the specification has it: among contacts of equal score the one with the larger
  id is the keeper. The sort key is the pair of the score and the negated id, sorted in
  descending order, so among equal scores the smaller id comes first: of two contacts
  without any property, ids 1 and 2, the keeper is the one with id 1, in whichever order
  the group lists them.
\<close>

theorem keeper_tie_counterexample:
  "score \<lparr>cid = 1, properties = Map.empty\<rparr> = score \<lparr>cid = 2, properties = Map.empty\<rparr>
   \<and> sort_group [\<lparr>cid = 1, properties = Map.empty\<rparr>, \<lparr>cid = 2, properties = Map.empty\<rparr>]
       = [\<lparr>cid = 1, properties = Map.empty\<rparr>, \<lparr>cid = 2, properties = Map.empty\<rparr>]
   \<and> sort_group [\<lparr>cid = 2, properties = Map.empty\<rparr>, \<lparr>cid = 1, properties = Map.empty\<rparr>]
       = [\<lparr>cid = 1, properties = Map.empty\<rparr>, \<lparr>cid = 2, properties = Map.empty\<rparr>]"
  by (simp add: contact_eval py_eval)

text \<open>
  C3, amended: the keeper is a member of the group whose score tuple is lexicographically
  greatest, and among the members with that score it is one with the numerically smallest
  id.
\<close>

theorem keeper_choice:
  "sort_group grp = keeper # to_delete \<Longrightarrow>
     keeper \<in> set grp
     \<and> (\<forall>c \<in> set grp. score c \<le> score keeper)
     \<and> (\<forall>c \<in> set grp. score c = score keeper \<longrightarrow> cid keeper \<le> cid c)"
proof (intro conjI ballI impI)
  assume a: "sort_group grp = keeper # to_delete"
  then show "keeper \<in> set grp" by (rule sort_group_head(1))
  fix c assume c: "c \<in> set grp"
  from a c have le: "(score c, - cid c) \<le> (score keeper, - cid keeper)"
    by (rule sort_group_head(2))
  then have alt: "score c < score keeper \<or> score c \<le> score keeper \<and> - cid c \<le> - cid keeper"
    by (simp only: less_eq_prod_def fst_conv snd_conv)
  then show "score c \<le> score keeper" by (auto intro: less_imp_le)
  assume "score c = score keeper"
  with alt show "cid keeper \<le> cid c" by auto
qed

text \<open>C3, amended, on a group of three in which only the contact with id 3 has an email.\<close>

theorem keeper_choice_witness:
  "sort_group [\<lparr>cid = 2, properties = Map.empty\<rparr>, \<lparr>cid = 1, properties = Map.empty\<rparr>,
               \<lparr>cid = 3, properties = [''email'' \<mapsto> str ''a@b.co'']\<rparr>]
     = [\<lparr>cid = 3, properties = [''email'' \<mapsto> str ''a@b.co'']\<rparr>,
        \<lparr>cid = 1, properties = Map.empty\<rparr>, \<lparr>cid = 2, properties = Map.empty\<rparr>]
   \<and> score \<lparr>cid = 1, properties = Map.empty\<rparr>
         \<le> score \<lparr>cid = 3, properties = [''email'' \<mapsto> str ''a@b.co'']\<rparr>
   \<and> score \<lparr>cid = 2, properties = Map.empty\<rparr>
         \<le> score \<lparr>cid = 3, properties = [''email'' \<mapsto> str ''a@b.co'']\<rparr>"
proof -
  have s: "sort_group [\<lparr>cid = 2, properties = Map.empty\<rparr>, \<lparr>cid = 1, properties = Map.empty\<rparr>,
               \<lparr>cid = 3, properties = [''email'' \<mapsto> str ''a@b.co'']\<rparr>]
     = [\<lparr>cid = 3, properties = [''email'' \<mapsto> str ''a@b.co'']\<rparr>,
        \<lparr>cid = 1, properties = Map.empty\<rparr>, \<lparr>cid = 2, properties = Map.empty\<rparr>]"
    by (simp add: contact_eval py_eval)
  show ?thesis
    using keeper_choice [OF s] s by simp
qed

subsection \<open>The merge\<close>

lemma map_of_merge_field:
  "map_of (merge_field kp dp mu g) f =
     (case map_of mu f of
        Some v \<Rightarrow> Some v
      | None \<Rightarrow>
          if f = g \<and> py_strip (or_empty (kp g)) = [] \<and> py_strip (or_empty (dp g)) \<noteq> []
          then Some (py_strip (or_empty (dp g))) else None)"
proof (cases "map_of mu g")
  case None
  then have "g \<notin> fst ` set mu" by (simp add: map_of_eq_None_iff)
  then show ?thesis
    using None by (auto simp: merge_field_def map_add_def split: option.splits)
next
  case (Some a)
  then have "g \<in> fst ` set mu" by (metis map_of_eq_None_iff option.distinct(1))
  then show ?thesis
    using Some by (auto simp: merge_field_def split: option.splits)
qed

lemma map_of_merge_fields:
  "map_of (foldl (merge_field kp dp) mu fs) f =
     (case map_of mu f of
        Some v \<Rightarrow> Some v
      | None \<Rightarrow>
          if f \<in> set fs \<and> py_strip (or_empty (kp f)) = [] \<and> py_strip (or_empty (dp f)) \<noteq> []
          then Some (py_strip (or_empty (dp f))) else None)"
proof (induction fs arbitrary: mu)
  case Nil
  then show ?case by (simp split: option.splits)
next
  case (Cons g fs)
  show ?case
    by (auto simp add: Cons.IH map_of_merge_field split: option.splits)
qed

lemma map_of_merge_loop:
  "map_of (foldl (\<lambda>updates dup. foldl (merge_field kp (properties dup)) updates fs) mu ds) f =
     (case map_of mu f of
        Some v \<Rightarrow> Some v
      | None \<Rightarrow>
          if f \<in> set fs \<and> py_strip (or_empty (kp f)) = []
          then (case find (\<lambda>d. py_strip (or_empty (properties d f)) \<noteq> []) ds of
                  None \<Rightarrow> None
                | Some d \<Rightarrow> Some (py_strip (or_empty (properties d f))))
          else None)"
proof (induction ds arbitrary: mu)
  case Nil
  then show ?case by (simp split: option.splits)
next
  case (Cons d ds)
  show ?case
    by (simp add: Cons.IH map_of_merge_fields split: option.splits)
qed

lemma distinct_merge_field:
  "distinct (map fst mu) \<Longrightarrow> distinct (map fst (merge_field kp dp mu g))"
  by (simp add: merge_field_def)

lemma distinct_merge_fields:
  "distinct (map fst mu) \<Longrightarrow> distinct (map fst (foldl (merge_field kp dp) mu fs))"
  by (induction fs arbitrary: mu) (simp_all add: distinct_merge_field)

lemma distinct_merge_loop:
  "distinct (map fst mu) \<Longrightarrow>
     distinct (map fst (foldl (\<lambda>updates dup. foldl (merge_field kp (properties dup)) updates fs) mu ds))"
  by (induction ds arbitrary: mu) (simp_all add: distinct_merge_fields)

lemma map_of_merge_updates:
  "map_of (merge_updates keeper others) f =
     (if f \<in> set FIELDS \<and> py_strip (or_empty (properties keeper f)) = []
      then (case find (\<lambda>d. py_strip (or_empty (properties d f)) \<noteq> []) others of
              None \<Rightarrow> None
            | Some d \<Rightarrow> Some (py_strip (or_empty (properties d f))))
      else None)
   \<and> distinct (map fst (merge_updates keeper others))"
  by (simp add: merge_updates_def map_of_merge_loop distinct_merge_loop)

lemma map_of_merge_updates_None:
  "(map_of (merge_updates keeper others) f = None) =
     (\<not> (f \<in> set FIELDS \<and> py_strip (or_empty (properties keeper f)) = []
         \<and> (\<exists>d \<in> set others. py_strip (or_empty (properties d f)) \<noteq> [])))"
proof (cases "find (\<lambda>d. py_strip (or_empty (properties d f)) \<noteq> []) others")
  case None
  then have "\<not> (\<exists>d \<in> set others. py_strip (or_empty (properties d f)) \<noteq> [])"
    by (auto simp: find_None_iff)
  with None show ?thesis by (simp add: map_of_merge_updates)
next
  case (Some d)
  then have "py_strip (or_empty (properties d f)) \<noteq> [] \<and> d \<in> set others"
    by (auto simp: find_Some_iff)
  with Some show ?thesis by (auto simp: map_of_merge_updates)
qed

lemma merge_updates_Nil_iff:
  "(merge_updates keeper others = []) =
     (\<forall>f \<in> set FIELDS. py_strip (or_empty (properties keeper f)) = [] \<longrightarrow>
        (\<forall>d \<in> set others. py_strip (or_empty (properties d f)) = []))"
proof -
  have "(merge_updates keeper others = []) = (\<forall>f. map_of (merge_updates keeper others) f = None)"
  proof (cases "merge_updates keeper others")
    case Nil then show ?thesis by simp
  next
    case (Cons a l)
    then have "map_of (merge_updates keeper others) (fst a) \<noteq> None" by (cases a) simp
    then have "\<exists>f. map_of (merge_updates keeper others) f \<noteq> None" by (rule exI)
    with Cons show ?thesis by simp
  qed
  also have "\<dots> = (\<forall>f \<in> set FIELDS. py_strip (or_empty (properties keeper f)) = [] \<longrightarrow>
        (\<forall>d \<in> set others. py_strip (or_empty (properties d f)) = []))"
    unfolding map_of_merge_updates_None by blast
  finally show ?thesis .
qed

text \<open>
  C4, as the specification has it: a field whose keeper value is non-empty is never in the
  mapping, and a field is bound to the value found in the other record. The code compares
  and stores the values after \<open>strip()\<close>: a keeper value of one blank is a non-empty
  string and is filled all the same, and the value stored is the stripped one.
\<close>

theorem merge_updates_whitespace_counterexample:
  "properties \<lparr>cid = 1, properties = [''company'' \<mapsto> str '' '']\<rparr> ''company'' = Some (str '' '')
   \<and> str '' '' \<noteq> []
   \<and> properties \<lparr>cid = 2, properties = [''company'' \<mapsto> str '' Acme '']\<rparr> ''company''
       = Some (str '' Acme '')
   \<and> merge_updates \<lparr>cid = 1, properties = [''company'' \<mapsto> str '' '']\<rparr>
        [\<lparr>cid = 2, properties = [''company'' \<mapsto> str '' Acme '']\<rparr>]
       = [(''company'', str ''Acme'')]
   \<and> str ''Acme'' \<noteq> str '' Acme ''"
proof -
  have inner: "foldl (merge_field [''company'' \<mapsto> str '' ''] [''company'' \<mapsto> str '' Acme '']) []
                 FIELDS = [(''company'', str ''Acme'')]"
    by (simp add: FIELDS_def merge_field_def py_eval)
  show ?thesis
    by (simp add: merge_updates_def inner) (simp add: str_def)
qed

text \<open>
  C4, amended: with empty read as empty after stripping whitespace, the mapping has exactly
  the tracked fields whose keeper value is empty or absent and for which some other record
  has a non-empty value, each bound to the stripped value of the first such record in the
  order of the others; each field occurs once; and the mapping is empty exactly when no
  tracked field that is empty in the keeper is non-empty in another record.
\<close>

theorem merge_updates_fill:
  "map_of (merge_updates keeper others) f =
     (if f \<in> set FIELDS \<and> py_strip (or_empty (properties keeper f)) = []
      then (case find (\<lambda>d. py_strip (or_empty (properties d f)) \<noteq> []) others of
              None \<Rightarrow> None
            | Some d \<Rightarrow> Some (py_strip (or_empty (properties d f))))
      else None)
   \<and> distinct (map fst (merge_updates keeper others))
   \<and> ((merge_updates keeper others = []) =
        (\<forall>g \<in> set FIELDS. py_strip (or_empty (properties keeper g)) = [] \<longrightarrow>
           (\<forall>d \<in> set others. py_strip (or_empty (properties d g)) = [])))"
  using map_of_merge_updates [of keeper others f] merge_updates_Nil_iff [of keeper others]
  by (simp only: simp_thms)

text \<open>
  C4, amended: the keeper has an email and no city; the city comes from the first of the
  others that has one, stripped; the email stays out; and with nothing to fill the mapping
  is empty.
\<close>

theorem merge_updates_fill_witness:
  "map_of (merge_updates \<lparr>cid = 1, properties = [''email'' \<mapsto> str ''a@b.co'']\<rparr>
        [\<lparr>cid = 2, properties = [''email'' \<mapsto> str ''x@y.co'']\<rparr>,
         \<lparr>cid = 3, properties = [''city'' \<mapsto> str ''Oslo '']\<rparr>,
         \<lparr>cid = 4, properties = [''city'' \<mapsto> str ''Rome'']\<rparr>]) ''city'' = Some (str ''Oslo'')
   \<and> map_of (merge_updates \<lparr>cid = 1, properties = [''email'' \<mapsto> str ''a@b.co'']\<rparr>
        [\<lparr>cid = 2, properties = [''email'' \<mapsto> str ''x@y.co'']\<rparr>,
         \<lparr>cid = 3, properties = [''city'' \<mapsto> str ''Oslo '']\<rparr>,
         \<lparr>cid = 4, properties = [''city'' \<mapsto> str ''Rome'']\<rparr>]) ''email'' = None
   \<and> merge_updates \<lparr>cid = 1, properties = [''email'' \<mapsto> str ''a@b.co'']\<rparr>
        [\<lparr>cid = 2, properties = [''email'' \<mapsto> str ''x@y.co'']\<rparr>] = []"
proof -
  let ?k = "\<lparr>cid = 1, properties = [''email'' \<mapsto> str ''a@b.co'']\<rparr>"
  let ?o2 = "\<lparr>cid = 2, properties = [''email'' \<mapsto> str ''x@y.co'']\<rparr>"
  let ?o3 = "\<lparr>cid = 3, properties = [''city'' \<mapsto> str ''Oslo '']\<rparr>"
  let ?o4 = "\<lparr>cid = 4, properties = [''city'' \<mapsto> str ''Rome'']\<rparr>"
  have noop: "\<forall>g \<in> set FIELDS. py_strip (or_empty (properties ?k g)) = [] \<longrightarrow>
           (\<forall>d \<in> set [?o2]. py_strip (or_empty (properties d g)) = [])"
    by (simp add: FIELDS_def py_eval)
  have city: "''city'' \<in> set FIELDS" and email: "''email'' \<in> set FIELDS"
    by (simp_all add: FIELDS_def)
  have kc: "py_strip (or_empty (properties ?k ''city'')) = []"
    and ke: "py_strip (or_empty (properties ?k ''email'')) \<noteq> []"
    by (simp_all add: py_eval)
  have f: "find (\<lambda>d. py_strip (or_empty (properties d ''city'')) \<noteq> []) [?o2, ?o3, ?o4] = Some ?o3"
    by (simp add: py_eval)
  have v: "py_strip (or_empty (properties ?o3 ''city'')) = str ''Oslo''"
    by (simp add: py_eval)
  show ?thesis
    using merge_updates_fill [of ?k "[?o2, ?o3, ?o4]" "''city''"]
          merge_updates_fill [of ?k "[?o2, ?o3, ?o4]" "''email''"]
          merge_updates_fill [of ?k "[?o2]" "''email''"]
          noop city email kc ke f v
    by simp
qed

section \<open>The order of the requests\<close>












section \<open>Properties of \<open>find_duplicates\<close>\<close>

subsection \<open>Dictionaries\<close>

lemma map_of_setdefault_append:
  "map_of (setdefault_append k v d) k' =
     (if k' = k then Some ((case map_of d k of None \<Rightarrow> [] | Some l \<Rightarrow> l) @ [v]) else map_of d k')"
  by (induction d) auto

lemma keys_setdefault_append:
  "map fst (setdefault_append k v d) = (if k \<in> fst ` set d then map fst d else map fst d @ [k])"
  by (induction d) force+

lemma distinct_setdefault_append:
  "distinct (map fst d) \<Longrightarrow> distinct (map fst (setdefault_append k v d))"
  by (simp add: keys_setdefault_append)

lemma map_of_dict_set: "map_of (dict_set k v d) = (map_of d)(k \<mapsto> v)"
  by (induction d) (auto simp: fun_eq_iff)

lemma map_of_fold_dict_set:
  "map_of (fold (\<lambda>c d. dict_set c t d) cs l) x = (if x \<in> set cs then Some t else map_of l x)"
  by (induction cs arbitrary: l) (auto simp: map_of_dict_set)

lemma map_of_relabel:
  "map_of (map (\<lambda>(c, g). if g \<in> G then (c, t) else (c, g)) l) x
     = map_option (\<lambda>g. if g \<in> G then t else g) (map_of l x)"
  by (induction l) auto

text \<open>The grouping loops: a fold of \<open>setdefault_append\<close> collects, under each key, the elements with that key in their order.\<close>

lemma map_of_grouping:
  "map_of (foldl (\<lambda>d c. if ok c then setdefault_append (kf c) c d else d) d0 cs) k =
     (if map_of d0 k = None \<and> filter (\<lambda>c. ok c \<and> kf c = k) cs = [] then None
      else Some ((case map_of d0 k of None \<Rightarrow> [] | Some l \<Rightarrow> l) @ filter (\<lambda>c. ok c \<and> kf c = k) cs))"
proof (induction cs arbitrary: d0)
  case Nil
  then show ?case by (cases "map_of d0 k") simp_all
next
  case (Cons c cs)
  show ?case
    by (simp add: Cons.IH map_of_setdefault_append split: option.splits)
qed

lemma by_name_fold:
  "foldl by_name_step d0 cs
     = foldl (\<lambda>d c. if name_key c \<noteq> [] \<and> length (name_key c) > 2
                      then setdefault_append (name_key c) c d else d) d0 cs"
  by (simp add: by_name_step_def Let_def fun_eq_iff cong: foldl_cong)

lemma by_url_fold:
  "foldl by_url_step d0 cs
     = foldl (\<lambda>d c. if url_key c \<noteq> [] then setdefault_append (url_key c) c d else d) d0 cs"
  by (simp add: by_url_step_def Let_def fun_eq_iff cong: foldl_cong)

lemma by_name_entry:
  assumes "a \<in> set contacts" "2 < length (name_key a)"
  shows "(name_key a, filter (\<lambda>c. (name_key c \<noteq> [] \<and> 2 < length (name_key c)) \<and> name_key c = name_key a) contacts)
           \<in> set (foldl by_name_step [] contacts)"
proof -
  from assms have "a \<in> set (filter (\<lambda>c. (name_key c \<noteq> [] \<and> 2 < length (name_key c)) \<and> name_key c = name_key a) contacts)"
    by auto
  then have "filter (\<lambda>c. (name_key c \<noteq> [] \<and> 2 < length (name_key c)) \<and> name_key c = name_key a) contacts \<noteq> []"
    by (metis empty_iff list.set(1))
  then have "map_of (foldl by_name_step [] contacts) (name_key a)
      = Some (filter (\<lambda>c. (name_key c \<noteq> [] \<and> 2 < length (name_key c)) \<and> name_key c = name_key a) contacts)"
    unfolding by_name_fold
    by (simp add: map_of_grouping [where ok = "\<lambda>c. name_key c \<noteq> [] \<and> 2 < length (name_key c)" and kf = name_key])
  then show ?thesis by (rule map_of_SomeD)
qed

lemma by_url_entry:
  assumes "a \<in> set contacts" "url_key a \<noteq> []"
  shows "(url_key a, filter (\<lambda>c. url_key c \<noteq> [] \<and> url_key c = url_key a) contacts)
           \<in> set (foldl by_url_step [] contacts)"
proof -
  from assms have "a \<in> set (filter (\<lambda>c. url_key c \<noteq> [] \<and> url_key c = url_key a) contacts)"
    by auto
  then have "filter (\<lambda>c. url_key c \<noteq> [] \<and> url_key c = url_key a) contacts \<noteq> []"
    by (metis empty_iff list.set(1))
  then have "map_of (foldl by_url_step [] contacts) (url_key a)
      = Some (filter (\<lambda>c. url_key c \<noteq> [] \<and> url_key c = url_key a) contacts)"
    unfolding by_url_fold
    by (simp add: map_of_grouping [where ok = "\<lambda>c. url_key c \<noteq> []" and kf = url_key])
  then show ?thesis by (rule map_of_SomeD)
qed

lemma grouping_members:
  "(k, grp) \<in> set (foldl (\<lambda>d c. if ok c then setdefault_append (kf c) c d else d) [] cs)
     \<Longrightarrow> set grp \<subseteq> set cs"
proof -
  assume m: "(k, grp) \<in> set (foldl (\<lambda>d c. if ok c then setdefault_append (kf c) c d else d) [] cs)"
  have "distinct (map fst (foldl (\<lambda>d c. if ok c then setdefault_append (kf c) c d else d) d0 cs))"
    if "distinct (map fst d0)" for d0
    using that by (induction cs arbitrary: d0) (simp_all add: distinct_setdefault_append)
  then have "distinct (map fst (foldl (\<lambda>d c. if ok c then setdefault_append (kf c) c d else d) [] cs))"
    by simp
  from this m have "map_of (foldl (\<lambda>d c. if ok c then setdefault_append (kf c) c d else d) [] cs) k = Some grp"
    by (rule map_of_is_SomeI)
  then have "grp = filter (\<lambda>c. ok c \<and> kf c = k) cs"
    by (simp add: map_of_grouping split: if_splits)
  then show ?thesis by auto
qed

subsection \<open>The group numbering\<close>

lemma get_group_map:
  "get_group c st = (g, st') \<Longrightarrow>
     map_of (contact_to_group st') c = Some g
     \<and> (\<forall>x g0. map_of (contact_to_group st) x = Some g0 \<longrightarrow> map_of (contact_to_group st') x = Some g0)
     \<and> (\<forall>x. map_of (contact_to_group st') x \<noteq> None \<longrightarrow>
            map_of (contact_to_group st) x \<noteq> None \<or> x = c)"
  by (auto simp: get_group_def map_add_def split: option.splits if_splits)

lemma get_groups_map:
  "get_groups cs st = (gs, st') \<Longrightarrow>
     (\<forall>c \<in> set cs. \<exists>g \<in> set gs. map_of (contact_to_group st') c = Some g)
     \<and> (\<forall>x g. map_of (contact_to_group st) x = Some g \<longrightarrow> map_of (contact_to_group st') x = Some g)
     \<and> (\<forall>x. map_of (contact_to_group st') x \<noteq> None \<longrightarrow>
            map_of (contact_to_group st) x \<noteq> None \<or> x \<in> set cs)"
proof (induction cs arbitrary: st gs st')
  case Nil
  then show ?case by simp
next
  case (Cons c cs)
  obtain g st1 where g1: "get_group c st = (g, st1)" by (cases "get_group c st")
  obtain gs2 st2 where g2: "get_groups cs st1 = (gs2, st2)" by (cases "get_groups cs st1")
  from Cons.prems g1 g2 have eq: "gs = g # gs2" "st' = st2" by simp_all
  note m1 = get_group_map [OF g1]
  note m2 = Cons.IH [OF g2]
  have a: "\<forall>c' \<in> set (c # cs). \<exists>g \<in> set gs. map_of (contact_to_group st') c' = Some g"
  proof
    fix c' assume "c' \<in> set (c # cs)"
    then consider "c' = c" | "c' \<in> set cs" by auto
    then show "\<exists>g \<in> set gs. map_of (contact_to_group st') c' = Some g"
    proof cases
      case 1
      from m1 have "map_of (contact_to_group st1) c = Some g" by blast
      with m2 have "map_of (contact_to_group st2) c = Some g" by blast
      with 1 eq show ?thesis by simp
    next
      case 2
      with m2 obtain g' where "g' \<in> set gs2" "map_of (contact_to_group st2) c' = Some g'" by blast
      with eq show ?thesis by auto
    qed
  qed
  have b: "\<forall>x g. map_of (contact_to_group st) x = Some g \<longrightarrow> map_of (contact_to_group st') x = Some g"
    using m1 m2 eq(2) by blast
  have c: "\<forall>x. map_of (contact_to_group st') x \<noteq> None \<longrightarrow>
            map_of (contact_to_group st) x \<noteq> None \<or> x \<in> set (c # cs)"
  proof (intro allI impI)
    fix x assume "map_of (contact_to_group st') x \<noteq> None"
    with m2 eq(2) have "map_of (contact_to_group st1) x \<noteq> None \<or> x \<in> set cs" by blast
    with m1 show "map_of (contact_to_group st) x \<noteq> None \<or> x \<in> set (c # cs)"
      by auto
  qed
  from a b c show ?case by blast
qed

text \<open>What \<open>merge_groups\<close> does to the numbering, when it does anything.\<close>

lemma merge_groups_map:
  assumes "1 < length cids" "get_groups cids st = (gs, st1)"
  shows "map_of (contact_to_group (merge_groups cids st)) x
     = map_option (\<lambda>g. if g \<in> set gs then Min (set gs) else g) (map_of (contact_to_group st1) x)"
proof -
  let ?t = "Min (set gs)"
  let ?rel = "map (\<lambda>(c, g). if g \<in> set gs then (c, ?t) else (c, g)) (contact_to_group st1)"
  have "contact_to_group (merge_groups cids st) = fold (\<lambda>c d. dict_set c ?t d) cids ?rel"
    using assms by (simp add: merge_groups_def Let_def)
  then have "map_of (contact_to_group (merge_groups cids st)) x
      = (if x \<in> set cids then Some ?t else map_of ?rel x)"
    by (simp add: map_of_fold_dict_set)
  also have "\<dots> = map_option (\<lambda>g. if g \<in> set gs then ?t else g) (map_of (contact_to_group st1) x)"
  proof (cases "x \<in> set cids")
    case True
    with get_groups_map [OF assms(2)] obtain g where "g \<in> set gs" "map_of (contact_to_group st1) x = Some g"
      by blast
    with True show ?thesis by simp
  next
    case False
    then show ?thesis by (simp add: map_of_relabel)
  qed
  finally show ?thesis .
qed

lemma merge_groups_keeps:
  assumes "map_of (contact_to_group st) a = Some g" "map_of (contact_to_group st) b = Some g"
  shows "\<exists>g'. map_of (contact_to_group (merge_groups cids st)) a = Some g'
            \<and> map_of (contact_to_group (merge_groups cids st)) b = Some g'"
proof (cases "1 < length cids")
  case False
  then have "merge_groups cids st = st" by (simp add: merge_groups_def)
  with assms show ?thesis by simp
next
  case True
  obtain gs st1 where g: "get_groups cids st = (gs, st1)" by (cases "get_groups cids st")
  from get_groups_map [OF g] assms
  have "map_of (contact_to_group st1) a = Some g" "map_of (contact_to_group st1) b = Some g"
    by blast+
  then show ?thesis by (simp add: merge_groups_map [OF True g])
qed

lemma merge_groups_joins:
  assumes "1 < length cids" "a \<in> set cids" "b \<in> set cids"
  shows "\<exists>g'. map_of (contact_to_group (merge_groups cids st)) a = Some g'
            \<and> map_of (contact_to_group (merge_groups cids st)) b = Some g'"
proof -
  obtain gs st1 where g: "get_groups cids st = (gs, st1)" by (cases "get_groups cids st")
  from get_groups_map [OF g] assms(2,3) obtain ga gb where
    "ga \<in> set gs" "map_of (contact_to_group st1) a = Some ga"
    "gb \<in> set gs" "map_of (contact_to_group st1) b = Some gb"
    by blast
  then show ?thesis by (simp add: merge_groups_map [OF assms(1) g])
qed

lemma merge_groups_dom:
  assumes "map_of (contact_to_group (merge_groups cids st)) x \<noteq> None"
  shows "map_of (contact_to_group st) x \<noteq> None \<or> x \<in> set cids"
proof (cases "1 < length cids")
  case False
  then have "merge_groups cids st = st" by (simp add: merge_groups_def)
  with assms show ?thesis by simp
next
  case True
  obtain gs st1 where g: "get_groups cids st = (gs, st1)" by (cases "get_groups cids st")
  from assms have "map_of (contact_to_group st1) x \<noteq> None"
    by (simp add: merge_groups_map [OF True g])
  with get_groups_map [OF g] show ?thesis by blast
qed

lemma merge_step_keeps:
  assumes "map_of (contact_to_group st) a = Some g" "map_of (contact_to_group st) b = Some g"
  shows "\<exists>g'. map_of (contact_to_group (merge_step st item)) a = Some g'
            \<and> map_of (contact_to_group (merge_step st item)) b = Some g'"
proof (cases item)
  case (Pair key grp)
  show ?thesis
  proof (cases "1 < length grp")
    case True
    with Pair merge_groups_keeps [OF assms, of "map cid grp"] show ?thesis
      by (simp add: merge_step_def)
  next
    case False
    with Pair assms show ?thesis by (simp add: merge_step_def)
  qed
qed

lemma merge_loop_keeps:
  "map_of (contact_to_group st) a = Some g \<Longrightarrow> map_of (contact_to_group st) b = Some g \<Longrightarrow>
     \<exists>g'. map_of (contact_to_group (foldl merge_step st items)) a = Some g'
          \<and> map_of (contact_to_group (foldl merge_step st items)) b = Some g'"
proof (induction items arbitrary: st g)
  case Nil
  then show ?case by simp
next
  case (Cons item items)
  from merge_step_keeps [OF Cons.prems, of item] obtain g1 where
    "map_of (contact_to_group (merge_step st item)) a = Some g1"
    "map_of (contact_to_group (merge_step st item)) b = Some g1" by blast
  from Cons.IH [OF this] show ?case by simp
qed

lemma merge_loop_joins:
  "(key, grp) \<in> set items \<Longrightarrow> 1 < length grp \<Longrightarrow> a \<in> set grp \<Longrightarrow> b \<in> set grp \<Longrightarrow>
     \<exists>g'. map_of (contact_to_group (foldl merge_step st items)) (cid a) = Some g'
          \<and> map_of (contact_to_group (foldl merge_step st items)) (cid b) = Some g'"
proof (induction items arbitrary: st)
  case Nil
  then show ?case by simp
next
  case (Cons item items)
  show ?case
  proof (cases "item = (key, grp)")
    case True
    have "cid a \<in> set (map cid grp)" "cid b \<in> set (map cid grp)" "1 < length (map cid grp)"
      using Cons.prems by simp_all
    from merge_groups_joins [OF this(3) this(1) this(2), of st] obtain g1 where
      "map_of (contact_to_group (merge_groups (map cid grp) st)) (cid a) = Some g1"
      "map_of (contact_to_group (merge_groups (map cid grp) st)) (cid b) = Some g1" by blast
    with True Cons.prems(2) have
      "map_of (contact_to_group (merge_step st item)) (cid a) = Some g1"
      "map_of (contact_to_group (merge_step st item)) (cid b) = Some g1"
      by (simp_all add: merge_step_def)
    from merge_loop_keeps [OF this, of items] show ?thesis by simp
  next
    case False
    with Cons.prems have "(key, grp) \<in> set items" by simp
    from Cons.IH [OF this Cons.prems(2,3,4), of "merge_step st item"] show ?thesis by simp
  qed
qed

lemma merge_loop_dom:
  "map_of (contact_to_group (foldl merge_step st items)) x \<noteq> None \<Longrightarrow>
     map_of (contact_to_group st) x \<noteq> None \<or> (\<exists>item \<in> set items. x \<in> cid ` set (snd item))"
proof (induction items arbitrary: st)
  case Nil
  then show ?case by simp
next
  case (Cons item items)
  from Cons.prems have "map_of (contact_to_group (foldl merge_step (merge_step st item) items)) x \<noteq> None"
    by simp
  from Cons.IH [OF this] consider
    "map_of (contact_to_group (merge_step st item)) x \<noteq> None"
    | "\<exists>item \<in> set items. x \<in> cid ` set (snd item)" by blast
  then show ?case
  proof cases
    case 1
    obtain key grp where item: "item = (key, grp)" by (cases item)
    show ?thesis
    proof (cases "1 < length grp")
      case True
      with 1 item have "map_of (contact_to_group (merge_groups (map cid grp) st)) x \<noteq> None"
        by (simp add: merge_step_def)
      from merge_groups_dom [OF this] item show ?thesis by auto
    next
      case False
      with 1 item show ?thesis by (simp add: merge_step_def)
    qed
  next
    case 2
    then obtain it where "it \<in> set items" "x \<in> cid ` set (snd it)" by (elim bexE)
    then have "\<exists>item \<in> set (item # items). x \<in> cid ` set (snd item)"
      by (intro bexI [of _ it]) simp_all
    then show ?thesis by (rule disjI2)
  qed
qed

subsection \<open>The final groups\<close>

lemma contacts_by_id_member:
  assumes "distinct (map cid contacts)" "a \<in> set contacts"
  shows "contacts_by_id contacts (cid a) = Some a"
proof -
  have "distinct (map fst (rev (map (\<lambda>c. (cid c, c)) contacts)))"
    using assms(1) by (simp add: rev_map [symmetric] comp_def)
  moreover have "(cid a, a) \<in> set (rev (map (\<lambda>c. (cid c, c)) contacts))"
    using assms(2) by auto
  ultimately show ?thesis
    unfolding contacts_by_id_def by (rule map_of_is_SomeI)
qed

lemma contacts_by_id_dom:
  "x \<in> cid ` set contacts \<Longrightarrow> contacts_by_id contacts x \<noteq> None"
  by (auto simp: contacts_by_id_def map_of_eq_None_iff image_iff)

lemma build_final_groups:
  assumes "\<forall>e \<in> set items. by_id (fst e) \<noteq> None"
  shows "\<exists>fg'. build_final by_id items fg = Inr fg'
     \<and> (distinct (map fst fg) \<longrightarrow> distinct (map fst fg'))
     \<and> (\<forall>g. map_of fg' g =
           (if map_of fg g = None \<and> filter (\<lambda>e. snd e = g) items = [] then None
            else Some ((case map_of fg g of None \<Rightarrow> [] | Some l \<Rightarrow> l)
                        @ map (\<lambda>e. the (by_id (fst e))) (filter (\<lambda>e. snd e = g) items))))"
  using assms
proof (induction items arbitrary: fg)
  case Nil
  show ?case by (intro exI [of _ fg]) (simp split: option.splits)
next
  case (Cons e items)
  obtain c gid where e: "e = (c, gid)" by (cases e)
  with Cons.prems obtain x where x: "by_id c = Some x" by auto
  from Cons.prems have "\<forall>e \<in> set items. by_id (fst e) \<noteq> None" by simp
  from Cons.IH [OF this, of "setdefault_append gid x fg"] obtain fg' where
    ih: "build_final by_id items (setdefault_append gid x fg) = Inr fg'
      \<and> (distinct (map fst (setdefault_append gid x fg)) \<longrightarrow> distinct (map fst fg'))
      \<and> (\<forall>g. map_of fg' g =
           (if map_of (setdefault_append gid x fg) g = None \<and> filter (\<lambda>e. snd e = g) items = [] then None
            else Some ((case map_of (setdefault_append gid x fg) g of None \<Rightarrow> [] | Some l \<Rightarrow> l)
                        @ map (\<lambda>e. the (by_id (fst e))) (filter (\<lambda>e. snd e = g) items))))"
    by (elim exE)
  note r = ih [THEN conjunct1]
  note d = ih [THEN conjunct2, THEN conjunct1]
  note m = ih [THEN conjunct2, THEN conjunct2]
  have run: "build_final by_id (e # items) fg = Inr fg'" using e x r by simp
  have dist: "distinct (map fst fg) \<longrightarrow> distinct (map fst fg')"
    using d distinct_setdefault_append [of fg gid x] by simp
  have "\<forall>g. map_of fg' g =
           (if map_of fg g = None \<and> filter (\<lambda>e. snd e = g) (e # items) = [] then None
            else Some ((case map_of fg g of None \<Rightarrow> [] | Some l \<Rightarrow> l)
                        @ map (\<lambda>e. the (by_id (fst e))) (filter (\<lambda>e. snd e = g) (e # items))))"
  proof
    fix g
    show "map_of fg' g =
           (if map_of fg g = None \<and> filter (\<lambda>e. snd e = g) (e # items) = [] then None
            else Some ((case map_of fg g of None \<Rightarrow> [] | Some l \<Rightarrow> l)
                        @ map (\<lambda>e. the (by_id (fst e))) (filter (\<lambda>e. snd e = g) (e # items))))"
      using m [rule_format, of g] e x
      by (simp add: map_of_setdefault_append split: option.splits)
  qed
  then show ?case by (intro exI [of _ fg'] conjI run dist)
qed

lemma two_members:
  "x \<in> set xs \<Longrightarrow> y \<in> set xs \<Longrightarrow> x \<noteq> y \<Longrightarrow> 1 < length xs"
proof -
  assume a: "x \<in> set xs" "y \<in> set xs" "x \<noteq> y"
  then have "{x, y} \<subseteq> set xs" by simp
  then have "card {x, y} \<le> card (set xs)" by (rule card_mono [OF finite_set])
  also have "\<dots> \<le> length xs" by (rule card_length)
  finally show ?thesis using a(3) by simp
qed

subsection \<open>\<open>find_duplicates\<close>\<close>

lemma by_name_members:
  "item \<in> set (foldl by_name_step [] contacts) \<Longrightarrow> set (snd item) \<subseteq> set contacts"
  unfolding by_name_fold
  using grouping_members [of "fst item" "snd item"
      "\<lambda>c. name_key c \<noteq> [] \<and> length (name_key c) > 2" name_key contacts]
  by simp

lemma by_url_members:
  "item \<in> set (foldl by_url_step [] contacts) \<Longrightarrow> set (snd item) \<subseteq> set contacts"
  unfolding by_url_fold
  using grouping_members [of "fst item" "snd item" "\<lambda>c. url_key c \<noteq> []" url_key contacts]
  by simp

lemma numbered_are_contacts:
  assumes "map_of (contact_to_group
      (foldl merge_step
        (foldl merge_step \<lparr>contact_to_group = [], group_counter = 0\<rparr> (foldl by_name_step [] contacts))
        (foldl by_url_step [] contacts))) x \<noteq> None"
  shows "x \<in> cid ` set contacts"
proof -
  let ?st1 = "foldl merge_step \<lparr>contact_to_group = [], group_counter = 0\<rparr> (foldl by_name_step [] contacts)"
  from merge_loop_dom [OF assms] consider
    "map_of (contact_to_group ?st1) x \<noteq> None"
    | item where "item \<in> set (foldl by_url_step [] contacts)" "x \<in> cid ` set (snd item)"
    by blast
  then show ?thesis
  proof cases
    case 1
    from merge_loop_dom [OF 1] obtain item where
      "item \<in> set (foldl by_name_step [] contacts)" "x \<in> cid ` set (snd item)"
      by auto
    with by_name_members [of item contacts] show ?thesis by blast
  next
    case 2
    with by_url_members [of item contacts] show ?thesis by blast
  qed
qed

lemma name_link:
  assumes "a \<in> set contacts" "b \<in> set contacts" "a \<noteq> b"
    and "name_key a = name_key b" "2 < length (name_key a)"
  shows "\<exists>g. map_of (contact_to_group
      (foldl merge_step
        (foldl merge_step \<lparr>contact_to_group = [], group_counter = 0\<rparr> (foldl by_name_step [] contacts))
        (foldl by_url_step [] contacts))) (cid a) = Some g
    \<and> map_of (contact_to_group
      (foldl merge_step
        (foldl merge_step \<lparr>contact_to_group = [], group_counter = 0\<rparr> (foldl by_name_step [] contacts))
        (foldl by_url_step [] contacts))) (cid b) = Some g"
proof -
  let ?grp = "filter (\<lambda>c. (name_key c \<noteq> [] \<and> 2 < length (name_key c)) \<and> name_key c = name_key a) contacts"
  have e: "(name_key a, ?grp) \<in> set (foldl by_name_step [] contacts)"
    using assms(1,5) by (rule by_name_entry)
  have ma: "a \<in> set ?grp" using assms(1,5) by auto
  have mb: "b \<in> set ?grp" using assms(2,4,5) by auto
  have len: "1 < length ?grp" using ma mb assms(3) by (rule two_members)
  from merge_loop_joins [OF e len ma mb, of "\<lparr>contact_to_group = [], group_counter = 0\<rparr>"]
  obtain g1 where
    "map_of (contact_to_group (foldl merge_step \<lparr>contact_to_group = [], group_counter = 0\<rparr>
        (foldl by_name_step [] contacts))) (cid a) = Some g1"
    "map_of (contact_to_group (foldl merge_step \<lparr>contact_to_group = [], group_counter = 0\<rparr>
        (foldl by_name_step [] contacts))) (cid b) = Some g1"
    by blast
  then show ?thesis by (rule merge_loop_keeps)
qed

lemma url_link:
  assumes "a \<in> set contacts" "b \<in> set contacts" "a \<noteq> b"
    and "url_key a = url_key b" "url_key a \<noteq> []"
  shows "\<exists>g. map_of (contact_to_group (foldl merge_step st (foldl by_url_step [] contacts))) (cid a) = Some g
    \<and> map_of (contact_to_group (foldl merge_step st (foldl by_url_step [] contacts))) (cid b) = Some g"
proof -
  let ?grp = "filter (\<lambda>c. url_key c \<noteq> [] \<and> url_key c = url_key a) contacts"
  have e: "(url_key a, ?grp) \<in> set (foldl by_url_step [] contacts)"
    using assms(1,5) by (rule by_url_entry)
  have ma: "a \<in> set ?grp" using assms(1,5) by auto
  have mb: "b \<in> set ?grp" using assms(2,4,5) by auto
  have len: "1 < length ?grp" using ma mb assms(3) by (rule two_members)
  from merge_loop_joins [OF e len ma mb, of st] show ?thesis .
qed

lemma find_duplicates_groups:
  assumes d: "distinct (map cid contacts)"
    and a: "a \<in> set contacts" and b: "b \<in> set contacts" and ab: "a \<noteq> b"
    and ga: "map_of (contact_to_group
      (foldl merge_step
        (foldl merge_step \<lparr>contact_to_group = [], group_counter = 0\<rparr> (foldl by_name_step [] contacts))
        (foldl by_url_step [] contacts))) (cid a) = Some g"
    and gb: "map_of (contact_to_group
      (foldl merge_step
        (foldl merge_step \<lparr>contact_to_group = [], group_counter = 0\<rparr> (foldl by_name_step [] contacts))
        (foldl by_url_step [] contacts))) (cid b) = Some g"
  shows "\<exists>groups grp. find_duplicates contacts = Inr groups \<and> (g, grp) \<in> set groups
     \<and> (\<forall>x \<in> set contacts. map_of (contact_to_group
      (foldl merge_step
        (foldl merge_step \<lparr>contact_to_group = [], group_counter = 0\<rparr> (foldl by_name_step [] contacts))
        (foldl by_url_step [] contacts))) (cid x) = Some g \<longrightarrow> x \<in> set grp)"
proof -
  define st where "st = foldl merge_step
        (foldl merge_step \<lparr>contact_to_group = [], group_counter = 0\<rparr> (foldl by_name_step [] contacts))
        (foldl by_url_step [] contacts)"
  define items where "items = contact_to_group st"
  define by_id where "by_id = contacts_by_id contacts"
  note ga' = ga [folded st_def items_def] and gb' = gb [folded st_def items_def]
  have keys: "\<forall>e \<in> set items. by_id (fst e) \<noteq> None"
  proof
    fix e assume "e \<in> set items"
    then have "fst e \<in> fst ` set items" by simp
    then have "map_of items (fst e) \<noteq> None" by (simp add: map_of_eq_None_iff)
    then have "fst e \<in> cid ` set contacts"
      unfolding items_def st_def by (rule numbered_are_contacts)
    then show "by_id (fst e) \<noteq> None" unfolding by_id_def by (rule contacts_by_id_dom)
  qed
  from build_final_groups [OF keys, of "[]"] obtain fg where
    fg: "build_final by_id items [] = Inr fg
      \<and> (distinct (map fst ([] :: (nat \<times> contact list) list)) \<longrightarrow> distinct (map fst fg))
      \<and> (\<forall>g. map_of fg g =
           (if map_of ([] :: (nat \<times> contact list) list) g = None \<and> filter (\<lambda>e. snd e = g) items = [] then None
            else Some ((case map_of ([] :: (nat \<times> contact list) list) g of None \<Rightarrow> [] | Some l \<Rightarrow> l)
                        @ map (\<lambda>e. the (by_id (fst e))) (filter (\<lambda>e. snd e = g) items))))"
    by (elim exE)
  define grp where "grp = map (\<lambda>e. the (by_id (fst e))) (filter (\<lambda>e. snd e = g) items)"
  have ia: "(cid a, g) \<in> set items" using ga' by (rule map_of_SomeD)
  have ib: "(cid b, g) \<in> set items" using gb' by (rule map_of_SomeD)
  have "cid a \<noteq> cid b" using d a b ab by (auto simp: distinct_map inj_on_def)
  then have ne: "(cid a, g) \<noteq> (cid b, g)" by simp
  have fa: "(cid a, g) \<in> set (filter (\<lambda>e. snd e = g) items)" using ia by simp
  have fb: "(cid b, g) \<in> set (filter (\<lambda>e. snd e = g) items)" using ib by simp
  have len: "1 < length grp" unfolding grp_def using two_members [OF fa fb ne] by simp
  have nonempty: "filter (\<lambda>e. snd e = g) items \<noteq> []" using fa by (metis empty_iff list.set(1))
  have "map_of fg g = Some grp"
    using fg [THEN conjunct2, THEN conjunct2, rule_format, of g] nonempty by (simp add: grp_def)
  then have "(g, grp) \<in> set fg" by (rule map_of_SomeD)
  with len have mem: "(g, grp) \<in> set (filter (\<lambda>(gid, grp). 1 < length grp) fg)" by simp
  have run: "find_duplicates contacts = Inr (filter (\<lambda>(gid, grp). 1 < length grp) fg)"
    using fg [THEN conjunct1]
    by (simp add: find_duplicates_def Let_def st_def [symmetric] items_def [symmetric] by_id_def [symmetric])
  have all: "\<forall>x \<in> set contacts. map_of items (cid x) = Some g \<longrightarrow> x \<in> set grp"
  proof (intro ballI impI)
    fix x assume x: "x \<in> set contacts" and gx: "map_of items (cid x) = Some g"
    from gx have "(cid x, g) \<in> set items" by (rule map_of_SomeD)
    then have "(cid x, g) \<in> set (filter (\<lambda>e. snd e = g) items)" by simp
    then have "the (by_id (fst (cid x, g))) \<in> set grp" unfolding grp_def set_map by (rule imageI)
    moreover have "by_id (cid x) = Some x" unfolding by_id_def using d x by (rule contacts_by_id_member)
    ultimately show "x \<in> set grp" by simp
  qed
  show ?thesis
    unfolding st_def [symmetric] items_def [symmetric]
    by (intro exI [of _ "filter (\<lambda>(gid, grp). 1 < length grp) fg"] exI [of _ grp] conjI run mem all)
qed

subsection \<open>Three contacts on which the function is run\<close>

text \<open>
  The first two have the name key ``john smith'', the last two the URL key
  \<open>https://x/in/jsmith\<close>; the first and the third share neither.
\<close>

lemma john_key_1:
  "name_key \<lparr>cid = 1, properties = [''firstname'' \<mapsto> str ''John'', ''lastname'' \<mapsto> str ''Smith'']\<rparr>
     = str ''john smith''"
  by (simp add: name_key_def py_eval)

lemma john_key_2:
  "name_key \<lparr>cid = 2, properties = [''firstname'' \<mapsto> str ''John'', ''lastname'' \<mapsto> str ''Smith, MBA'',
       ''hs_linkedin_url'' \<mapsto> str ''https://x/in/jsmith/'']\<rparr> = str ''john smith''"
  by (simp add: name_key_def py_eval)

lemma john_key_3:
  "name_key \<lparr>cid = 3, properties = [''firstname'' \<mapsto> str ''J.'', ''lastname'' \<mapsto> str ''S.'',
       ''hs_linkedin_url'' \<mapsto> str ''HTTPS://x/in/jsmith?trk=1'']\<rparr> = str ''j. s.''"
  by (simp add: name_key_def py_eval)

lemma john_url_1:
  "url_key \<lparr>cid = 1, properties = [''firstname'' \<mapsto> str ''John'', ''lastname'' \<mapsto> str ''Smith'']\<rparr> = []"
  by (simp add: url_key_def py_eval)

lemma john_url_2:
  "url_key \<lparr>cid = 2, properties = [''firstname'' \<mapsto> str ''John'', ''lastname'' \<mapsto> str ''Smith, MBA'',
       ''hs_linkedin_url'' \<mapsto> str ''https://x/in/jsmith/'']\<rparr> = str ''https://x/in/jsmith''"
  by (simp add: url_key_def py_eval)

lemma john_url_3:
  "url_key \<lparr>cid = 3, properties = [''firstname'' \<mapsto> str ''J.'', ''lastname'' \<mapsto> str ''S.'',
       ''hs_linkedin_url'' \<mapsto> str ''HTTPS://x/in/jsmith?trk=1'']\<rparr> = str ''https://x/in/jsmith''"
  by (simp add: url_key_def py_eval)

lemma find_duplicates_example:
  "find_duplicates
       [\<lparr>cid = 1, properties = [''firstname'' \<mapsto> str ''John'', ''lastname'' \<mapsto> str ''Smith'']\<rparr>,
        \<lparr>cid = 2, properties = [''firstname'' \<mapsto> str ''John'', ''lastname'' \<mapsto> str ''Smith, MBA'',
           ''hs_linkedin_url'' \<mapsto> str ''https://x/in/jsmith/'']\<rparr>,
        \<lparr>cid = 3, properties = [''firstname'' \<mapsto> str ''J.'', ''lastname'' \<mapsto> str ''S.'',
           ''hs_linkedin_url'' \<mapsto> str ''HTTPS://x/in/jsmith?trk=1'']\<rparr>]
   = Inr [(0,
       [\<lparr>cid = 1, properties = [''firstname'' \<mapsto> str ''John'', ''lastname'' \<mapsto> str ''Smith'']\<rparr>,
        \<lparr>cid = 2, properties = [''firstname'' \<mapsto> str ''John'', ''lastname'' \<mapsto> str ''Smith, MBA'',
           ''hs_linkedin_url'' \<mapsto> str ''https://x/in/jsmith/'']\<rparr>,
        \<lparr>cid = 3, properties = [''firstname'' \<mapsto> str ''J.'', ''lastname'' \<mapsto> str ''S.'',
           ''hs_linkedin_url'' \<mapsto> str ''HTTPS://x/in/jsmith?trk=1'']\<rparr>])]"
proof -
  let ?a = "\<lparr>cid = 1, properties = [''firstname'' \<mapsto> str ''John'', ''lastname'' \<mapsto> str ''Smith'']\<rparr>"
  let ?b = "\<lparr>cid = 2, properties = [''firstname'' \<mapsto> str ''John'', ''lastname'' \<mapsto> str ''Smith, MBA'',
           ''hs_linkedin_url'' \<mapsto> str ''https://x/in/jsmith/'']\<rparr>"
  let ?c = "\<lparr>cid = 3, properties = [''firstname'' \<mapsto> str ''J.'', ''lastname'' \<mapsto> str ''S.'',
           ''hs_linkedin_url'' \<mapsto> str ''HTTPS://x/in/jsmith?trk=1'']\<rparr>"
  have s: "str ''john smith'' \<noteq> []" "2 < length (str ''john smith'')" "str ''j. s.'' \<noteq> []"
    "2 < length (str ''j. s.'')" "str ''j. s.'' \<noteq> str ''john smith''"
    "str ''https://x/in/jsmith'' \<noteq> []"
    by (simp_all add: str_def)
  have bn: "foldl by_name_step [] [?a, ?b, ?c] = [(str ''john smith'', [?a, ?b]), (str ''j. s.'', [?c])]"
    by (simp add: by_name_step_def john_key_1 john_key_2 john_key_3 s)
  have bu: "foldl by_url_step [] [?a, ?b, ?c] = [(str ''https://x/in/jsmith'', [?b, ?c])]"
    by (simp add: by_url_step_def john_url_1 john_url_2 john_url_3 s)
  have m1: "foldl merge_step \<lparr>contact_to_group = [], group_counter = 0\<rparr>
              [(str ''john smith'', [?a, ?b]), (str ''j. s.'', [?c])]
            = \<lparr>contact_to_group = [(1, 0), (2, 0)], group_counter = 2\<rparr>"
    by (simp add: merge_step_def merge_groups_def get_group_def)
  have m2: "foldl merge_step \<lparr>contact_to_group = [(1, 0), (2, 0)], group_counter = 2\<rparr>
              [(str ''https://x/in/jsmith'', [?b, ?c])]
            = \<lparr>contact_to_group = [(1, 0), (2, 0), (3, 0)], group_counter = 3\<rparr>"
    by (simp add: merge_step_def merge_groups_def get_group_def)
  show ?thesis
    unfolding find_duplicates_def Let_def bn bu m1 m2
    by (simp add: contacts_by_id_def)
qed

subsection \<open>Direct matches\<close>

lemma short_name_key:
  "name_key \<lparr>cid = i, properties = [''firstname'' \<mapsto> str ''Al'']\<rparr> = str ''al''"
  by (simp add: name_key_def py_eval)

lemma no_url_key:
  "url_key \<lparr>cid = i, properties = [''firstname'' \<mapsto> str ''Al'']\<rparr> = []"
  by (simp add: url_key_def py_eval)

text \<open>
  C2, as the specification has it: two contacts whose name keys are equal and non-empty are
  in one returned group. A name key of one or two characters is not used for matching
  (the guard \<open>len(norm) > 2\<close>): two contacts named ``Al'' have the same non-empty key and
  no group is returned.
\<close>

theorem short_name_counterexample:
  "name_key \<lparr>cid = 1, properties = [''firstname'' \<mapsto> str ''Al'']\<rparr> = str ''al''
   \<and> name_key \<lparr>cid = 2, properties = [''firstname'' \<mapsto> str ''Al'']\<rparr> = str ''al''
   \<and> str ''al'' \<noteq> []
   \<and> find_duplicates [\<lparr>cid = 1, properties = [''firstname'' \<mapsto> str ''Al'']\<rparr>,
                       \<lparr>cid = 2, properties = [''firstname'' \<mapsto> str ''Al'']\<rparr>] = Inr []"
proof -
  have len: "length (str ''al'') = 2" "str ''al'' \<noteq> []" by (simp_all add: str_def)
  have bn: "foldl by_name_step [] [\<lparr>cid = 1, properties = [''firstname'' \<mapsto> str ''Al'']\<rparr>,
                       \<lparr>cid = 2, properties = [''firstname'' \<mapsto> str ''Al'']\<rparr>] = []"
    by (simp add: by_name_step_def short_name_key len)
  have bu: "foldl by_url_step [] [\<lparr>cid = 1, properties = [''firstname'' \<mapsto> str ''Al'']\<rparr>,
                       \<lparr>cid = 2, properties = [''firstname'' \<mapsto> str ''Al'']\<rparr>] = []"
    by (simp add: by_url_step_def no_url_key)
  have "find_duplicates [\<lparr>cid = 1, properties = [''firstname'' \<mapsto> str ''Al'']\<rparr>,
                       \<lparr>cid = 2, properties = [''firstname'' \<mapsto> str ''Al'']\<rparr>] = Inr []"
    unfolding find_duplicates_def Let_def bn bu by simp
  with short_name_key len(2) show ?thesis by simp
qed

text \<open>
  C2, amended: in a list of contacts with distinct ids, two distinct contacts whose name
  keys are equal and longer than two characters, or whose URL keys are equal and non-empty,
  are members of one and the same returned group; and \<open>find_duplicates\<close> returns (no
  lookup in \<open>contacts_by_id\<close> fails). The ids are distinct because the CRM assigns them;
  the proof uses nothing about the two normalizers but that they are functions.
\<close>

theorem direct_match_same_group:
  assumes "distinct (map cid contacts)"
    and "a \<in> set contacts" and "b \<in> set contacts" and "a \<noteq> b"
    and "(name_key a = name_key b \<and> 2 < length (name_key a))
         \<or> (url_key a = url_key b \<and> url_key a \<noteq> [])"
  shows "\<exists>groups gid grp. find_duplicates contacts = Inr groups \<and> (gid, grp) \<in> set groups
           \<and> a \<in> set grp \<and> b \<in> set grp"
proof -
  let ?st = "foldl merge_step
        (foldl merge_step \<lparr>contact_to_group = [], group_counter = 0\<rparr> (foldl by_name_step [] contacts))
        (foldl by_url_step [] contacts)"
  have "\<exists>g. map_of (contact_to_group ?st) (cid a) = Some g
           \<and> map_of (contact_to_group ?st) (cid b) = Some g"
    using assms(5)
  proof
    assume "name_key a = name_key b \<and> 2 < length (name_key a)"
    then show ?thesis using name_link [OF assms(2,3,4)] by blast
  next
    assume "url_key a = url_key b \<and> url_key a \<noteq> []"
    then show ?thesis using url_link [OF assms(2,3,4)] by blast
  qed
  then obtain g where g: "map_of (contact_to_group ?st) (cid a) = Some g"
    "map_of (contact_to_group ?st) (cid b) = Some g" by blast
  from find_duplicates_groups [OF assms(1,2,3,4) g] obtain groups grp where
    r: "find_duplicates contacts = Inr groups \<and> (g, grp) \<in> set groups
     \<and> (\<forall>x \<in> set contacts. map_of (contact_to_group ?st) (cid x) = Some g \<longrightarrow> x \<in> set grp)"
    by (elim exE)
  then have "a \<in> set grp" "b \<in> set grp" using g assms(2,3) by blast+
  with r show ?thesis by blast
qed

text \<open>C2, amended, on the first two of the three contacts.\<close>

theorem direct_match_same_group_witness:
  "\<exists>groups gid grp.
     find_duplicates
       [\<lparr>cid = 1, properties = [''firstname'' \<mapsto> str ''John'', ''lastname'' \<mapsto> str ''Smith'']\<rparr>,
        \<lparr>cid = 2, properties = [''firstname'' \<mapsto> str ''John'', ''lastname'' \<mapsto> str ''Smith, MBA'',
           ''hs_linkedin_url'' \<mapsto> str ''https://x/in/jsmith/'']\<rparr>] = Inr groups
     \<and> (gid, grp) \<in> set groups
     \<and> \<lparr>cid = 1, properties = [''firstname'' \<mapsto> str ''John'', ''lastname'' \<mapsto> str ''Smith'']\<rparr> \<in> set grp
     \<and> \<lparr>cid = 2, properties = [''firstname'' \<mapsto> str ''John'', ''lastname'' \<mapsto> str ''Smith, MBA'',
           ''hs_linkedin_url'' \<mapsto> str ''https://x/in/jsmith/'']\<rparr> \<in> set grp"
proof -
  let ?a = "\<lparr>cid = 1, properties = [''firstname'' \<mapsto> str ''John'', ''lastname'' \<mapsto> str ''Smith'']\<rparr>"
  let ?b = "\<lparr>cid = 2, properties = [''firstname'' \<mapsto> str ''John'', ''lastname'' \<mapsto> str ''Smith, MBA'',
           ''hs_linkedin_url'' \<mapsto> str ''https://x/in/jsmith/'']\<rparr>"
  have d: "distinct (map cid [?a, ?b])" by simp
  have ma: "?a \<in> set [?a, ?b]" and mb: "?b \<in> set [?a, ?b]" by simp_all
  have ne: "?a \<noteq> ?b" by simp
  have k: "(name_key ?a = name_key ?b \<and> 2 < length (name_key ?a))
         \<or> (url_key ?a = url_key ?b \<and> url_key ?a \<noteq> [])"
    by (simp add: john_key_1 john_key_2) (simp add: str_def)
  show ?thesis by (rule direct_match_same_group [OF d ma mb ne k])
qed

subsection \<open>Transitive matches\<close>



end
